theory Spec2Isabelle
  imports Complex_Main "HOL-Library.Log_Nat"
begin

section \<open>Time\<close>

text \<open>
  A reading of \<^verbatim>\<open>time.Now()\<close> is an instant, counted in nanoseconds since the Unix
  epoch. \<^verbatim>\<open>Unix()\<close> and \<^verbatim>\<open>UnixMilli()\<close> round towards minus infinity, as
  \<open>div\<close> on \<open>int\<close> does.
\<close>

type_synonym instant = int

definition Unix :: "instant \<Rightarrow> int" where
  "Unix t = t div 1000000000"

definition UnixMilli :: "instant \<Rightarrow> int" where
  "UnixMilli t = t div 1000000"

section \<open>The shared keyspace (Redis)\<close>

text \<open>
  The keyspace is a map from keys to string values together with the log of messages
  published on topics. Expiry is not modelled. A command can fail (the server is
  unreachable): \<open>faults\<close> is the schedule of the commands to come, \<open>True\<close> for a
  command that fails; a command takes the head of the schedule, and a failed command
  leaves the keyspace as it was. An empty schedule means no command fails.
\<close>

record redis =
  kv :: "string \<rightharpoonup> string"
  published :: "(string \<times> string) list"
  faults :: "bool list"

definition next_fault :: "redis \<Rightarrow> bool \<times> redis" where
  "next_fault r =
     (case faults r of [] \<Rightarrow> (False, r) | f # fs \<Rightarrow> (f, r\<lparr>faults := fs\<rparr>))"

text \<open>\<^verbatim>\<open>rdb.SetEX(ctx, key, value, ttl).Err()\<close>: the flag is \<open>err != nil\<close>.\<close>

definition rdb_SetEX :: "string \<Rightarrow> string \<Rightarrow> redis \<Rightarrow> bool \<times> redis" where
  "rdb_SetEX key v r =
     (case next_fault r of
        (True, r') \<Rightarrow> (True, r')
      | (False, r') \<Rightarrow> (False, r'\<lparr>kv := (kv r')(key \<mapsto> v)\<rparr>))"

text \<open>\<^verbatim>\<open>rdb.Get(ctx, key).Result()\<close>: a value, \<^verbatim>\<open>redis.Nil\<close>, or another error.\<close>

datatype get_result = Value string | RedisNil | RedisErr

definition rdb_Get :: "string \<Rightarrow> redis \<Rightarrow> get_result \<times> redis" where
  "rdb_Get key r =
     (case next_fault r of
        (True, r') \<Rightarrow> (RedisErr, r')
      | (False, r') \<Rightarrow> ((case kv r' key of None \<Rightarrow> RedisNil | Some v \<Rightarrow> Value v), r'))"

text \<open>\<^verbatim>\<open>val, err := rdb.Get(...).Result()\<close> leaves \<open>val\<close> empty on any error.\<close>

fun get_val :: "get_result \<Rightarrow> string" where
  "get_val (Value v) = v"
| "get_val RedisNil = []"
| "get_val RedisErr = []"

text \<open>\<^verbatim>\<open>rdb.Exists(ctx, key).Result()\<close>: the number of keys found, \<open>None\<close> on error.\<close>

definition rdb_Exists :: "string \<Rightarrow> redis \<Rightarrow> int option \<times> redis" where
  "rdb_Exists key r =
     (case next_fault r of
        (True, r') \<Rightarrow> (None, r')
      | (False, r') \<Rightarrow> (Some (if kv r' key = None then 0 else 1), r'))"

text \<open>\<^verbatim>\<open>rdb.Publish(ctx, channel, payload).Err()\<close>.\<close>

definition rdb_Publish :: "string \<Rightarrow> string \<Rightarrow> redis \<Rightarrow> bool \<times> redis" where
  "rdb_Publish channel payload r =
     (case next_fault r of
        (True, r') \<Rightarrow> (True, r')
      | (False, r') \<Rightarrow> (False, r'\<lparr>published := published r' @ [(channel, payload)]\<rparr>))"

section \<open>The session director\<close>

text \<open>
  A handler of the director takes what it reads from its request and returns the response
  it writes and the new keyspace or registry. The log of the director is not modelled.
\<close>

subsection \<open>Data\<close>

record SessionState =
  Paused :: bool
  CurrentTime :: real
  PlaybackRate :: real
  Timestamp :: int

record StreamingServer =
  ID :: string
  URL :: string
  Capacity :: int
  CurrentLoad :: int
  Status :: string
  LastPing :: int
  Registered :: instant

type_synonym registry = "string \<rightharpoonup> StreamingServer"

text \<open>
  What a handler writes to its \<^verbatim>\<open>http.ResponseWriter\<close>: the status code and the body,
  a JSON object (keys in the sorted order of Go's map encoding), a plain text or nothing.
\<close>

datatype jvalue = JString string | JBool bool

datatype body = JsonObject "(string \<times> jvalue) list" | Plain string | NoBody

record response =
  status :: nat
  body :: body

definition http_Error :: "string \<Rightarrow> nat \<Rightarrow> response" where
  "http_Error msg code = \<lparr>status = code, body = Plain (msg @ [CHR 0x0A])\<rparr>"

definition respondJSON :: "nat \<Rightarrow> (string \<times> jvalue) list \<Rightarrow> response" where
  "respondJSON statusCode data = \<lparr>status = statusCode, body = JsonObject data\<rparr>"

definition respondError :: "nat \<Rightarrow> string \<Rightarrow> response" where
  "respondError statusCode errorMessage =
     \<lparr>status = statusCode, body = JsonObject [(''error'', JString errorMessage)]\<rparr>"

subsection \<open>Node selection\<close>

text \<open>
  A \<^verbatim>\<open>float64\<close> is the real number it denotes, or one of the IEEE special values; the
  two zeros are not told apart (they compare equal). \<open>f64_less\<close> below is the comparison
  \<^verbatim>\<open><\<close>: false whenever a side is NaN.
\<close>

datatype f64 = Fin real | PosInf | NegInf | NaN

text \<open>
  \<open>round_even n d\<close> is the integer nearest to \<open>n / d\<close> for \<open>0 < d\<close>, the even one of
  the two when \<open>n / d\<close> lies half-way between them.
\<close>

definition round_even :: "int \<Rightarrow> int \<Rightarrow> int" where
  "round_even n d =
     (let f = n div d; r = n mod d
      in if 2 * r < d then f
         else if d < 2 * r then f + 1
         else if even f then f else f + 1)"

definition pow2 :: "int \<Rightarrow> real" where
  "pow2 e = (if 0 \<le> e then 2 ^ nat e else 1 / 2 ^ nat (- e))"

text \<open>
  The conversion \<^verbatim>\<open>float64(a)\<close> of an integer: the double nearest to \<open>a\<close>, which is an
  integer again. A double has 53 significant bits: an integer of at most 53 bits is kept,
  a longer one is rounded to a multiple of the power of two that leaves 53 bits, ties to
  even. Go's \<^verbatim>\<open>int\<close> has at most 64 bits, so the result is never infinite.
\<close>

definition f64_of_int :: "int \<Rightarrow> int" where
  "f64_of_int a =
     (let n = bitlen \<bar>a\<bar>
      in if n \<le> 53 then a
         else sgn a * (round_even \<bar>a\<bar> (2 ^ nat (n - 53)) * 2 ^ nat (n - 53)))"

text \<open>
  The double nearest to \<open>x / y\<close> for \<open>0 < x\<close> and \<open>0 < y\<close>. \<open>exponent x y\<close> is the
  exponent \<open>k\<close> of the quotient, \<open>2 ^ k \<le> x / y < 2 ^ (k + 1)\<close>: it is the difference of
  the bit lengths or one less. The quotient is rounded to a multiple of \<open>2 ^ (k - 52)\<close>,
  ties to even. The quotient of two doubles that come from integers of at most 64 bits
  lies between \<open>2 ^ - 64\<close> and \<open>2 ^ 64\<close>, far inside the range of the normal doubles,
  where this is the result of the IEEE division.
\<close>

definition exponent :: "int \<Rightarrow> int \<Rightarrow> int" where
  "exponent x y =
     (let d = bitlen x - bitlen y
      in if (if 0 \<le> d then y * 2 ^ nat d \<le> x else y \<le> x * 2 ^ nat (- d))
         then d else d - 1)"

definition round53 :: "int \<Rightarrow> int \<Rightarrow> real" where
  "round53 x y =
     (let e = exponent x y - 52;
          m = (if 0 \<le> e then round_even x (y * 2 ^ nat e)
               else round_even (x * 2 ^ nat (- e)) y)
      in real_of_int m * pow2 e)"

text \<open>
  The quotient \<^verbatim>\<open>float64(a) / float64(b)\<close> of two integers: both are converted, and the
  quotient of the two doubles is rounded; a zero divisor gives an infinity, or NaN when
  the dividend is zero too.
\<close>

definition f64_div :: "int \<Rightarrow> int \<Rightarrow> f64" where
  "f64_div a b =
     (let x = f64_of_int a; y = f64_of_int b
      in if y = 0 then (if 0 < x then PosInf else if x < 0 then NegInf else NaN)
         else if x = 0 then Fin 0
         else Fin (real_of_int (sgn x * sgn y) * round53 \<bar>x\<bar> \<bar>y\<bar>))"

fun f64_less :: "f64 \<Rightarrow> f64 \<Rightarrow> bool" where
  "f64_less NaN _ = False"
| "f64_less _ NaN = False"
| "f64_less (Fin x) (Fin y) = (x < y)"
| "f64_less (Fin _) PosInf = True"
| "f64_less (Fin _) NegInf = False"
| "f64_less PosInf _ = False"
| "f64_less NegInf NegInf = False"
| "f64_less NegInf _ = True"

text \<open>
  The loop of \<^verbatim>\<open>getLeastLoadedServer\<close> over the registry. Go visits the keys of a map
  in an order of its own choosing: \<open>keys\<close> is that order. The accumulator is the pair
  \<^verbatim>\<open>(bestServer, lowestLoad)\<close>.
\<close>

fun leastLoaded_loop ::
  "registry \<Rightarrow> string list \<Rightarrow> StreamingServer option \<times> f64 \<Rightarrow> StreamingServer option \<times> f64"
where
  "leastLoaded_loop reg [] acc = acc"
| "leastLoaded_loop reg (k # ks) (bestServer, lowestLoad) =
     (case reg k of
        None \<Rightarrow> leastLoaded_loop reg ks (bestServer, lowestLoad)
      | Some server \<Rightarrow>
          if Status server \<noteq> ''active'' then leastLoaded_loop reg ks (bestServer, lowestLoad)
          else
            let load = f64_div (CurrentLoad server) (Capacity server) in
            if f64_less load lowestLoad then leastLoaded_loop reg ks (Some server, load)
            else leastLoaded_loop reg ks (bestServer, lowestLoad))"

definition getLeastLoadedServer :: "registry \<Rightarrow> string list \<Rightarrow> StreamingServer option" where
  "getLeastLoadedServer reg keys = fst (leastLoaded_loop reg keys (None, Fin 1))"

text \<open>
  The value \<^verbatim>\<open>load\<close> that the loop computes for an entry, and the entries the loop can
  take: those that are active with a \<^verbatim>\<open>load\<close> below \<^verbatim>\<open>1.0\<close>, the first value of
  \<^verbatim>\<open>lowestLoad\<close>. \<open>ratio\<close> is the exact ratio of load to capacity.
\<close>

definition load :: "StreamingServer \<Rightarrow> f64" where
  "load s = f64_div (CurrentLoad s) (Capacity s)"

definition selectable :: "StreamingServer \<Rightarrow> bool" where
  "selectable s = (Status s = ''active'' \<and> f64_less (load s) (Fin 1))"

definition ratio :: "StreamingServer \<Rightarrow> real" where
  "ratio s = real_of_int (CurrentLoad s) / real_of_int (Capacity s)"

text \<open>
  An entry whose load and capacity are converted exactly: integers from 0 to \<open>2 ^ 53\<close> are
  doubles.
\<close>

definition exactly_converted :: "StreamingServer \<Rightarrow> bool" where
  "exactly_converted s = (0 \<le> CurrentLoad s \<and> CurrentLoad s \<le> 2 ^ 53 \<and>
              0 < Capacity s \<and> Capacity s \<le> 2 ^ 53)"

subsection \<open>Registering and heartbeats\<close>

text \<open>
  The request body of both handlers is a node descriptor; \<open>None\<close> stands for a body
  that \<^verbatim>\<open>json.NewDecoder(r.Body).Decode(&server)\<close> rejects. The handlers write a
  status code only. \<open>registerStreamingServer\<close> reads the clock twice.
\<close>

definition registerStreamingServer ::
  "StreamingServer option \<Rightarrow> instant \<Rightarrow> instant \<Rightarrow> registry \<Rightarrow> response \<times> registry"
where
  "registerStreamingServer decoded now1 now2 streamingServers =
     (case decoded of
        None \<Rightarrow> (http_Error ''Invalid request'' 400, streamingServers)
      | Some server \<Rightarrow>
          let server = server\<lparr>Registered := now1\<rparr>;
              server = server\<lparr>LastPing := Unix now2\<rparr>
          in (\<lparr>status = 200, body = NoBody\<rparr>, streamingServers(ID server \<mapsto> server)))"

definition handleHeartbeat ::
  "StreamingServer option \<Rightarrow> instant \<Rightarrow> registry \<Rightarrow> response \<times> registry"
where
  "handleHeartbeat decoded now streamingServers =
     (case decoded of
        None \<Rightarrow> (http_Error ''Invalid request'' 400, streamingServers)
      | Some server \<Rightarrow>
          (\<lparr>status = 200, body = NoBody\<rparr>,
           (case streamingServers (ID server) of
              Some existingServer \<Rightarrow>
                streamingServers(ID server \<mapsto>
                  existingServer\<lparr>CurrentLoad := CurrentLoad server,
                                 LastPing := Unix now,
                                 Status := ''active''\<rparr>)
            | None \<Rightarrow> streamingServers)))"

subsection \<open>Creating a session\<close>

text \<open>
  \<open>createSession\<close> takes the two results of \<^verbatim>\<open>uuid.New().String()\<close>, the reading
  of the clock and the encoder \<^verbatim>\<open>json.Marshal\<close> of a \<open>SessionState\<close>. A response
  written without an explicit status has status 200.
\<close>

definition createSession ::
  "(SessionState \<Rightarrow> string) \<Rightarrow> string \<Rightarrow> string \<Rightarrow> instant \<Rightarrow> redis \<Rightarrow> response \<times> redis"
where
  "createSession marshal sessionKey hostToken now r0 =
     (case rdb_SetEX (''session:'' @ sessionKey) ''active'' r0 of
        (True, r1) \<Rightarrow> (http_Error ''Failed to create session'' 500, r1)
      | (False, r1) \<Rightarrow>
     (case rdb_SetEX (''session:'' @ sessionKey @ '':host'') hostToken r1 of
        (True, r2) \<Rightarrow> (http_Error ''Failed to create session'' 500, r2)
      | (False, r2) \<Rightarrow>
          let initialState = \<lparr>Paused = True, CurrentTime = 0, PlaybackRate = 1,
                                Timestamp = Unix now\<rparr>;
              stateJson = marshal initialState
          in
     (case rdb_SetEX (''session:'' @ sessionKey @ '':state'') stateJson r2 of
        (True, r3) \<Rightarrow> (http_Error ''Failed to create session'' 500, r3)
      | (False, r3) \<Rightarrow>
          (respondJSON 200 [(''hostToken'', JString hostToken),
                            (''sessionKey'', JString sessionKey)], r3))))"

text \<open>
  The three writes of \<open>createSession\<close> in their order, and the effect of a list of
  writes on the keyspace.
\<close>

definition session_writes ::
  "(SessionState \<Rightarrow> string) \<Rightarrow> string \<Rightarrow> string \<Rightarrow> instant \<Rightarrow> (string \<times> string) list"
where
  "session_writes marshal sessionKey hostToken now =
     [(''session:'' @ sessionKey, ''active''),
      (''session:'' @ sessionKey @ '':host'', hostToken),
      (''session:'' @ sessionKey @ '':state'',
         marshal \<lparr>Paused = True, CurrentTime = 0, PlaybackRate = 1, Timestamp = Unix now\<rparr>)]"

fun apply_writes :: "(string \<times> string) list \<Rightarrow> (string \<rightharpoonup> string) \<Rightarrow> (string \<rightharpoonup> string)" where
  "apply_writes [] m = m"
| "apply_writes ((k, v) # ws) m = apply_writes ws (m(k \<mapsto> v))"

subsection \<open>Validating a session\<close>

text \<open>
  The session key is cut out of the request path: the prefix \<^verbatim>\<open>/api/sessions/\<close>
  (14 characters) is dropped, the rest is cut at the first \<^verbatim>\<open>?\<close>, and the last 9
  characters (the length of \<^verbatim>\<open>/validate\<close>) are dropped. A slice out of range panics:
  the result is \<open>None\<close>.
\<close>

definition pathSessionKey :: "string \<Rightarrow> string option" where
  "pathSessionKey path =
     (if length path < 14 then None
      else
        let sessionKey = drop 14 path;
            sessionKey = takeWhile (\<lambda>c. c \<noteq> CHR ''?'') sessionKey
        in if length sessionKey < 9 then None
           else Some (take (length sessionKey - 9) sessionKey))"

definition normalizeURL :: "string \<Rightarrow> string" where
  "normalizeURL serverURL =
     (let serverURL = (if take 4 serverURL = ''http'' then serverURL
                       else ''http://'' @ serverURL)
      in if serverURL \<noteq> [] \<and> last serverURL = CHR ''/'' then butlast serverURL
         else serverURL)"

text \<open>
  \<open>validateSession\<close> takes the request path, the value of the query parameter
  \<^verbatim>\<open>hostToken\<close> (empty when the request has none) and the order in which the
  registry is visited. \<open>None\<close> is a panic.
\<close>

definition validateSession ::
  "string \<Rightarrow> string \<Rightarrow> string list \<Rightarrow> registry \<Rightarrow> redis \<Rightarrow> response option \<times> redis"
where
  "validateSession path hostToken keys streamingServers r0 =
     (case pathSessionKey path of
        None \<Rightarrow> (None, r0)
      | Some sessionKey \<Rightarrow>
     (case rdb_Exists (''session:'' @ sessionKey) r0 of
        (None, r1) \<Rightarrow> (Some (respondError 500 ''internal_server_error''), r1)
      | (Some exists, r1) \<Rightarrow>
          if exists = 0 then
            (Some (respondJSON 200 [(''error'', JString ''session_not_found''),
                                    (''valid'', JBool False)]), r1)
          else
            let (isHost, r2) =
              (if hostToken \<noteq> [] then
                 (case rdb_Get (''session:'' @ sessionKey @ '':host'') r1 of
                    (Value storedToken, r2) \<Rightarrow> (storedToken = hostToken, r2)
                  | (_, r2) \<Rightarrow> (False, r2))
               else (False, r1))
            in
            (case getLeastLoadedServer streamingServers keys of
               None \<Rightarrow> (Some (respondError 503 ''no_streaming_servers_available''), r2)
             | Some server \<Rightarrow>
                 (Some (respondJSON 200 [(''isHost'', JBool isHost),
                                         (''streaming_url'', JString (normalizeURL (URL server))),
                                         (''valid'', JBool True)]), r2))))"

text \<open>The recovery middleware of the router turns a panic into a 500.\<close>

definition recovered :: "response option \<times> redis \<Rightarrow> response \<times> redis" where
  "recovered out =
     (case out of
        (None, r) \<Rightarrow> (http_Error ''Internal Server Error'' 500, r)
      | (Some resp, r) \<Rightarrow> (resp, r))"

section \<open>The streaming node\<close>

text \<open>
  A handler of the node is one step on the state of the node: the globals, the
  connections behind the pointers, the keyspace and the log. The interleaving of the
  goroutines inside a handler is not modelled, nor is the goroutine \<^verbatim>\<open>writePump\<close>, which
  only takes messages from the queue of its connection and writes them to the socket. A
  line of the log is its fixed text, without the formatted error.
\<close>

subsection \<open>JSON\<close>

text \<open>
  JSON texts are strings. The functions of \<^verbatim>\<open>encoding/json\<close> that the node calls are
  the fields of a \<open>codec\<close>, and every theorem holds for every codec:
  \<^item> \<open>unmarshalEnvelope\<close>: \<^verbatim>\<open>json.Unmarshal\<close> of a client frame into the struct with
    the fields \<^verbatim>\<open>Type\<close> and \<^verbatim>\<open>State\<close> (a \<^verbatim>\<open>json.RawMessage\<close>);
  \<^item> \<open>unmarshalState\<close>: \<^verbatim>\<open>json.Unmarshal\<close> into a \<^verbatim>\<open>RedisState\<close>;
  \<^item> \<open>unmarshalRaw\<close>: \<^verbatim>\<open>json.Unmarshal\<close> into a \<^verbatim>\<open>json.RawMessage\<close>;
  \<^item> \<open>marshalRaw\<close>: \<^verbatim>\<open>json.Marshal\<close> of a \<^verbatim>\<open>json.RawMessage\<close>.

  \<open>None\<close> is an error. The node's struct \<^verbatim>\<open>RedisState\<close> has the fields of the
  director's \<^verbatim>\<open>SessionState\<close>.
\<close>

type_synonym RedisState = SessionState

record codec =
  unmarshalEnvelope :: "string \<Rightarrow> (string \<times> string) option"
  unmarshalState :: "string \<Rightarrow> RedisState option"
  unmarshalRaw :: "string \<Rightarrow> string option"
  marshalRaw :: "string \<Rightarrow> string option"

text \<open>\<^verbatim>\<open>json.Unmarshal\<close> rejects an empty input whatever the target is.\<close>

definition unmarshal_state :: "codec \<Rightarrow> string \<Rightarrow> RedisState option" where
  "unmarshal_state J data = (if data = [] then None else unmarshalState J data)"

definition unmarshal_raw :: "codec \<Rightarrow> string \<Rightarrow> string option" where
  "unmarshal_raw J data = (if data = [] then None else unmarshalRaw J data)"

subsection \<open>Data\<close>

record VideoManifest =
  ChunkDuration :: int
  ChunkCount :: int
  VideoDuration :: real
  VideoFileType :: string

text \<open>
  What the node sends to a client: the JSON objects with the keys \<^verbatim>\<open>type\<close>,
  \<^verbatim>\<open>state\<close> and \<^verbatim>\<open>servertime\<close>, by their type.
\<close>

datatype payload =
    StateUpdate string int
  | VideoMetadata VideoManifest
  | HeartbeatAck

text \<open>
  A buffered channel \<^verbatim>\<open>chan []byte\<close>: its buffer (oldest first), its capacity, and
  whether it is closed. A channel variable can be \<^verbatim>\<open>nil\<close>: \<open>None\<close>.
\<close>

record chan =
  buf :: "payload list"
  cap :: nat
  closed :: bool

definition make_chan :: "nat \<Rightarrow> chan" where
  "make_chan n = \<lparr>buf = [], cap = n, closed = False\<rparr>"

datatype 'a outcome = Done 'a | Blocked | Panicked

text \<open>\<^verbatim>\<open>ch <- v\<close>: blocks on a nil or full channel, panics on a closed one.\<close>

definition chan_send :: "chan option \<Rightarrow> payload \<Rightarrow> chan option outcome" where
  "chan_send ch v =
     (case ch of
        None \<Rightarrow> Blocked
      | Some c \<Rightarrow>
          if closed c then Panicked
          else if length (buf c) < cap c then Done (Some (c\<lparr>buf := buf c @ [v]\<rparr>))
          else Blocked)"

text \<open>
  \<^verbatim>\<open>select { case ch <- v: default: }\<close>: the flag tells whether the value was sent.
\<close>

definition select_send :: "chan option \<Rightarrow> payload \<Rightarrow> (chan option \<times> bool) outcome" where
  "select_send ch v =
     (case ch of
        None \<Rightarrow> Done (None, False)
      | Some c \<Rightarrow>
          if closed c then Panicked
          else if length (buf c) < cap c then Done (Some (c\<lparr>buf := buf c @ [v]\<rparr>), True)
          else Done (Some c, False))"

text \<open>\<^verbatim>\<open>close(ch)\<close> of a channel that is not nil: panics when it is closed already.\<close>

definition chan_close :: "chan \<Rightarrow> chan outcome" where
  "chan_close c = (if closed c then Panicked else Done (c\<lparr>closed := True\<rparr>))"

text \<open>
  A \<^verbatim>\<open>ClientConnection\<close>. The socket \<^verbatim>\<open>conn\<close> is a pointer: \<open>None\<close> is nil, \<open>Some h\<close>
  the socket with handle \<open>h\<close>.
\<close>

record ClientConnection =
  conn :: "nat option"
  sessionID :: string
  isHost :: bool
  send :: "chan option"

datatype socket_op = Write nat payload | Close nat

text \<open>
  The globals of the node. A \<^verbatim>\<open>*ClientConnection\<close> is an address, an index into
  \<open>heap\<close>, or nil (\<open>None\<close>); \<open>clients\<close> maps a session to its slice of pointers;
  \<open>client_lock\<close> holds the keys of the mutex map; \<open>subscriptions\<close> lists the channel of
  every \<^verbatim>\<open>rdb.Subscribe\<close> made, oldest first; \<open>socket_ops\<close> lists what was done to sockets
  directly; \<open>logs\<close> is the log. \<open>inLoop\<close> is control state: the connections whose handler
  is in the read loop of \<^verbatim>\<open>handleWebSocket\<close>, with its deferred \<^verbatim>\<open>cleanupClient\<close>
  still to run.
\<close>

record node =
  clients :: "string \<rightharpoonup> nat option list"
  client_lock :: "string set"
  numClients :: int
  heap :: "ClientConnection list"
  subscriptions :: "string list"
  socket_ops :: "socket_op list"
  logs :: "string list"
  rdb :: redis
  inLoop :: "nat set"

definition log_line :: "string \<Rightarrow> node \<Rightarrow> node" where
  "log_line l s = s\<lparr>logs := logs s @ [l]\<rparr>"

definition drop_line :: "string \<Rightarrow> string" where
  "drop_line sid = ''Dropping message to client in session '' @ sid @ '' (send buffer full)''"

subsection \<open>Messages from a client\<close>

definition publishStateUpdate :: "codec \<Rightarrow> string \<Rightarrow> string \<Rightarrow> node \<Rightarrow> node" where
  "publishStateUpdate J sid state s =
     (case marshalRaw J state of
        None \<Rightarrow> log_line ''Error marshaling state for publish:'' s
      | Some payload \<Rightarrow>
          (case rdb_Publish (''session-updates:'' @ sid) payload (rdb s) of
             (True, r) \<Rightarrow> log_line ''Error publishing state update:'' (s\<lparr>rdb := r\<rparr>)
           | (False, r) \<Rightarrow> s\<lparr>rdb := r\<rparr>))"

text \<open>
  The branch \<^verbatim>\<open>case "stateUpdate"\<close> of \<^verbatim>\<open>handleClientMessage\<close> for a host:
  \<open>state\<close> is \<^verbatim>\<open>msg.State\<close>. The error of \<^verbatim>\<open>json.Marshal(msg.State)\<close> is dropped
  by the code, which then stores the empty value.
\<close>

definition hostStateUpdate :: "codec \<Rightarrow> ClientConnection \<Rightarrow> string \<Rightarrow> node \<Rightarrow> node" where
  "hostStateUpdate J client state s =
     (case rdb_Get (''session:'' @ sessionID client @ '':state'') (rdb s) of (res, r1) \<Rightarrow>
        let s1 = s\<lparr>rdb := r1\<rparr>;
            s1 = (case res of
                    RedisNil \<Rightarrow> log_line (''Invalid Session key '' @ sessionID client) s1
                  | RedisErr \<Rightarrow> log_line ''Error Synchronizing'' s1
                  | Value _ \<Rightarrow> s1)
        in
        (case unmarshal_state J (get_val res) of
           None \<Rightarrow> log_line ''Error unmarshaling state from Redis:'' s1
         | Some stateFromRedis \<Rightarrow>
        (case unmarshal_state J state of
           None \<Rightarrow> log_line ''Error unmarshaling state from message:'' s1
         | Some stateFromMsg \<Rightarrow>
             if Timestamp stateFromMsg > Timestamp stateFromRedis then
               let stateJson = (case marshalRaw J state of None \<Rightarrow> [] | Some b \<Rightarrow> b) in
               (case rdb_SetEX (''session:'' @ sessionID client @ '':state'') stateJson (rdb s1) of
                  (err, r2) \<Rightarrow>
                    let s2 = s1\<lparr>rdb := r2\<rparr>;
                        s2 = (if err then log_line ''Error updating state in Redis:'' s2 else s2)
                    in publishStateUpdate J (sessionID client) state s2)
             else s1)))"

definition videoMetadata :: VideoManifest where
  "videoMetadata = \<lparr>ChunkDuration = 5, ChunkCount = 10, VideoDuration = 117,
                     VideoFileType = ''mp4''\<rparr>"

text \<open>\<open>handleClientMessage\<close> for the client at address \<open>p\<close>.\<close>

definition handleClientMessage :: "codec \<Rightarrow> nat \<Rightarrow> string \<Rightarrow> node \<Rightarrow> node outcome" where
  "handleClientMessage J p message s =
     (case unmarshalEnvelope J message of
        None \<Rightarrow> Done (log_line ''Error unmarshaling message:'' s)
      | Some (msgType, msgState) \<Rightarrow>
          let client = heap s ! p in
          if msgType = ''stateUpdate'' then
            (if isHost client then Done (hostStateUpdate J client msgState s) else Done s)
          else if msgType = ''videoMetadata'' then
            (case chan_send (send client) (VideoMetadata videoMetadata) of
               Done ch \<Rightarrow> Done (s\<lparr>heap := (heap s)[p := client\<lparr>send := ch\<rparr>]\<rparr>)
             | Blocked \<Rightarrow> Blocked
             | Panicked \<Rightarrow> Panicked)
          else if msgType = ''heartbeat'' then
            (case conn client of
               None \<Rightarrow> Panicked
             | Some h \<Rightarrow> Done (s\<lparr>socket_ops := socket_ops s @ [Write h HeartbeatAck]\<rparr>))
          else Done s)"

subsection \<open>Disconnecting\<close>

text \<open>
  \<open>cleanupClient\<close> for the pointer \<open>client\<close>. The loop over the bucket stops at the
  first entry equal to the pointer and removes it: \<open>remove1\<close>.
\<close>

definition cleanupClient :: "nat option \<Rightarrow> node \<Rightarrow> node outcome" where
  "cleanupClient client s =
     (case client of
        None \<Rightarrow> Done s
      | Some p \<Rightarrow>
          let c = heap s ! p; sid = sessionID c in
          if sid = [] then Done s
          else
            (case (case send c of
                     None \<Rightarrow> Done None
                   | Some ch \<Rightarrow>
                       (case chan_close ch of
                          Done ch' \<Rightarrow> Done (Some ch')
                        | Blocked \<Rightarrow> Blocked
                        | Panicked \<Rightarrow> Panicked)) of
               Blocked \<Rightarrow> Blocked
             | Panicked \<Rightarrow> Panicked
             | Done ch' \<Rightarrow>
                 let s1 = s\<lparr>heap := (heap s)[p := c\<lparr>send := ch'\<rparr>],
                            client_lock := insert sid (client_lock s)\<rparr>
                 in
                 (case clients s1 sid of
                    None \<Rightarrow> Done s1
                  | Some sessionClients \<Rightarrow>
                      if length sessionClients = 0 then Done s1
                      else
                        let s2 =
                          (if Some p \<in> set sessionClients then
                             (case conn c of
                                None \<Rightarrow> s1
                              | Some h \<Rightarrow> s1\<lparr>socket_ops := socket_ops s1 @ [Close h]\<rparr>)
                             \<lparr>clients := (clients s1)(sid \<mapsto> remove1 (Some p) sessionClients)\<rparr>
                           else s1)
                        in Done (s2\<lparr>numClients := numClients s2 - 1\<rparr>))))"

subsection \<open>Topic delivery\<close>

definition subscribeToSessionUpdates :: "string \<Rightarrow> node \<Rightarrow> node" where
  "subscribeToSessionUpdates sid s =
     s\<lparr>subscriptions := subscriptions s @ [''session-updates:'' @ sid]\<rparr>"

text \<open>
  The inner loop of \<open>broadcastState\<close>: one non-blocking send of \<open>payload\<close> to every
  entry of the snapshot whose pointer and socket are not nil. It works on the heap and
  the log.
\<close>

fun broadcast_inner ::
  "string \<Rightarrow> payload \<Rightarrow> nat option list \<Rightarrow> ClientConnection list \<times> string list
     \<Rightarrow> (ClientConnection list \<times> string list) outcome"
where
  "broadcast_inner sid payload [] (h, lg) = Done (h, lg)"
| "broadcast_inner sid payload (None # cs) (h, lg) = broadcast_inner sid payload cs (h, lg)"
| "broadcast_inner sid payload (Some p # cs) (h, lg) =
     (if conn (h ! p) = None then broadcast_inner sid payload cs (h, lg)
      else
        (case select_send (send (h ! p)) payload of
           Done (ch, True) \<Rightarrow>
             broadcast_inner sid payload cs (h[p := (h ! p)\<lparr>send := ch\<rparr>], lg)
         | Done (ch, False) \<Rightarrow>
             broadcast_inner sid payload cs (h, lg @ [drop_line sid])
         | Blocked \<Rightarrow> Blocked
         | Panicked \<Rightarrow> Panicked))"

text \<open>
  The outer loop, over the entries \<open>rest\<close> of the snapshot still to visit; the inner loop
  runs over the whole snapshot \<open>clientsToSend\<close>. The clock is read once in every turn
  that is not skipped: \<open>clk j\<close> is the reading of the turn that has \<open>j\<close> such turns
  before it.
\<close>

fun broadcast_outer ::
  "codec \<Rightarrow> (nat \<Rightarrow> instant) \<Rightarrow> string \<Rightarrow> string \<Rightarrow> nat option list \<Rightarrow> nat
     \<Rightarrow> nat option list \<Rightarrow> ClientConnection list \<times> string list
     \<Rightarrow> (ClientConnection list \<times> string list) outcome"
where
  "broadcast_outer J clk sid state clientsToSend j [] (h, lg) = Done (h, lg)"
| "broadcast_outer J clk sid state clientsToSend j (None # rest) (h, lg) =
     broadcast_outer J clk sid state clientsToSend j rest (h, lg)"
| "broadcast_outer J clk sid state clientsToSend j (Some p # rest) (h, lg) =
     (if conn (h ! p) = None then broadcast_outer J clk sid state clientsToSend j rest (h, lg)
      else
        (case marshalRaw J state of
           None \<Rightarrow> Done (h, lg @ [''Error marshaling broadcast state:''])
         | Some st \<Rightarrow>
             (case broadcast_inner sid (StateUpdate st (UnixMilli (clk j))) clientsToSend (h, lg) of
                Done (h', lg') \<Rightarrow>
                  broadcast_outer J clk sid state clientsToSend (Suc j) rest (h', lg')
              | Blocked \<Rightarrow> Blocked
              | Panicked \<Rightarrow> Panicked)))"

definition broadcastState ::
  "codec \<Rightarrow> (nat \<Rightarrow> instant) \<Rightarrow> string \<Rightarrow> string \<Rightarrow> node \<Rightarrow> node outcome"
where
  "broadcastState J clk sid state s =
     (let s1 = s\<lparr>client_lock := insert sid (client_lock s)\<rparr> in
      case clients s1 sid of
        None \<Rightarrow> Done s1
      | Some sessionClients \<Rightarrow>
          if length sessionClients = 0 then Done s1
          else
            let clientsToSend = sessionClients in
            (case broadcast_outer J clk sid state clientsToSend 0 clientsToSend
                    (heap s1, logs s1) of
               Done (h, lg) \<Rightarrow> Done (s1\<lparr>heap := h, logs := lg\<rparr>)
             | Blocked \<Rightarrow> Blocked
             | Panicked \<Rightarrow> Panicked))"

text \<open>
  \<open>handleSessionUpdate\<close>: the slice \<^verbatim>\<open>channel[len("session-updates:"):]\<close> panics on a
  channel name shorter than the 16 characters of the prefix.
\<close>

definition handleSessionUpdate ::
  "codec \<Rightarrow> (nat \<Rightarrow> instant) \<Rightarrow> string \<Rightarrow> string \<Rightarrow> node \<Rightarrow> node outcome"
where
  "handleSessionUpdate J clk channel payload s =
     (if length channel < 16 then Panicked
      else
        let sid = drop 16 channel;
            s1 = log_line (''Received update for session '' @ sid @ '': '' @ payload) s
        in
        (case unmarshal_raw J payload of
           None \<Rightarrow> Done (log_line ''Error unmarshaling state:'' s1)
         | Some state \<Rightarrow> broadcastState J clk sid state s1))"

subsection \<open>Connecting\<close>

text \<open>
  \<open>handleWebSocket\<close> up to its read loop. The arguments are the query parameters
  \<^verbatim>\<open>sessionID\<close> and \<^verbatim>\<open>isHost\<close>, the result of \<^verbatim>\<open>upgrader.Upgrade\<close> (the new
  socket, or \<open>None\<close> for an error) and the reading of the clock. The new
  \<^verbatim>\<open>ClientConnection\<close> is allocated at the next free address of the heap. A
  \<^verbatim>\<open>return\<close> after the \<^verbatim>\<open>defer\<close> runs \<open>cleanupClient\<close>; otherwise the handler enters
  its read loop. The result holds the response written by the handler itself, if any.
\<close>

definition sendInitialState ::
  "codec \<Rightarrow> nat \<Rightarrow> instant \<Rightarrow> node \<Rightarrow> (response option \<times> node) outcome"
where
  "sendInitialState J p now s =
     (let client = heap s ! p in
      case rdb_Get (''session:'' @ sessionID client @ '':state'') (rdb s) of (res, r1) \<Rightarrow>
        let s1 = s\<lparr>rdb := r1\<rparr>;
            s1 = (case res of
                    RedisNil \<Rightarrow> log_line (''Invalid Session key '' @ sessionID client) s1
                  | RedisErr \<Rightarrow> log_line ''Error Synchronizing'' s1
                  | Value _ \<Rightarrow> s1)
        in
        (case unmarshal_raw J (get_val res) of
           None \<Rightarrow>
             (case cleanupClient (Some p) (log_line ''Error unmarshaling state:'' s1) of
                Done s' \<Rightarrow> Done (None, s')
              | Blocked \<Rightarrow> Blocked
              | Panicked \<Rightarrow> Panicked)
         | Some state \<Rightarrow>
             (case marshalRaw J state of
                None \<Rightarrow>
                  (case cleanupClient (Some p) (log_line ''Error marshaling state:'' s1) of
                     Done s' \<Rightarrow> Done (None, s')
                   | Blocked \<Rightarrow> Blocked
                   | Panicked \<Rightarrow> Panicked)
              | Some st \<Rightarrow>
                  (case select_send (send client) (StateUpdate st (UnixMilli now)) of
                     Done (ch, True) \<Rightarrow>
                       Done (None, s1\<lparr>heap := (heap s1)[p := client\<lparr>send := ch\<rparr>],
                                        inLoop := insert p (inLoop s1)\<rparr>)
                   | Done (ch, False) \<Rightarrow>
                       Done (None, (log_line (drop_line (sessionID client)) s1)
                                     \<lparr>inLoop := insert p (inLoop s1)\<rparr>)
                   | Blocked \<Rightarrow> Blocked
                   | Panicked \<Rightarrow> Panicked))))"

definition handleWebSocket ::
  "codec \<Rightarrow> string \<Rightarrow> string \<Rightarrow> nat option \<Rightarrow> instant \<Rightarrow> node
     \<Rightarrow> (response option \<times> node) outcome"
where
  "handleWebSocket J sid isHostParam upgraded now s =
     (if sid = [] then Done (Some (http_Error ''Missing session ID'' 400), s)
      else
        case upgraded of
          None \<Rightarrow> Done (None, log_line ''Error upgrading connection:'' s)
        | Some h \<Rightarrow>
            let p = length (heap s);
                client = \<lparr>conn = Some h, sessionID = sid, isHost = (isHostParam = ''true''),
                          send = Some (make_chan 256)\<rparr>;
                s1 = s\<lparr>heap := heap s @ [client],
                       client_lock := insert sid (client_lock s)\<rparr>;
                s2 = s1\<lparr>clients := (clients s1)(sid \<mapsto>
                          (case clients s1 sid of None \<Rightarrow> [] | Some cs \<Rightarrow> cs) @ [Some p])\<rparr>;
                s3 = s2\<lparr>numClients := numClients s2 + 1\<rparr>;
                s4 = subscribeToSessionUpdates sid s3
            in
            if \<not> isHost client \<and> conn client \<noteq> None then sendInitialState J p now s4
            else Done (None, s4\<lparr>inLoop := insert p (inLoop s4)\<rparr>))"

text \<open>
  The state of \<open>handleWebSocket\<close>, for an accepted request, between its two critical
  sections: after \<^verbatim>\<open>client_lock[sessionID].Unlock()\<close> and before
  \<^verbatim>\<open>numClients_lock.Lock()\<close>, where the handler holds no lock. The new connection is in
  its bucket and the load counter has not been touched yet.
\<close>

definition attachClient :: "string \<Rightarrow> string \<Rightarrow> nat \<Rightarrow> node \<Rightarrow> node" where
  "attachClient sid isHostParam h s =
     (let p = length (heap s);
          client = \<lparr>conn = Some h, sessionID = sid, isHost = (isHostParam = ''true''),
                    send = Some (make_chan 256)\<rparr>;
          s1 = s\<lparr>heap := heap s @ [client],
                 client_lock := insert sid (client_lock s)\<rparr>
      in s1\<lparr>clients := (clients s1)(sid \<mapsto>
                (case clients s1 sid of None \<Rightarrow> [] | Some cs \<Rightarrow> cs) @ [Some p])\<rparr>)"

subsection \<open>Runs of the node\<close>

text \<open>
  The events that attach and detach connections: a request to \<^verbatim>\<open>/ws\<close>, and the failure
  of \<^verbatim>\<open>conn.ReadMessage\<close> on the socket of a connection in its read loop, which ends the
  loop and runs the deferred \<open>cleanupClient\<close>.
\<close>

datatype event =
    Connect string string "nat option" instant
  | Disconnect nat

fun step :: "codec \<Rightarrow> event \<Rightarrow> node \<Rightarrow> node outcome" where
  "step J (Connect sid isHostParam upgraded now) s =
     (case handleWebSocket J sid isHostParam upgraded now s of
        Done (_, s') \<Rightarrow> Done s'
      | Blocked \<Rightarrow> Blocked
      | Panicked \<Rightarrow> Panicked)"
| "step J (Disconnect p) s =
     (if p \<in> inLoop s
      then cleanupClient (Some p)
             (log_line ''Error reading message:'' (s\<lparr>inLoop := inLoop s - {p}\<rparr>))
      else Done s)"

fun run :: "codec \<Rightarrow> event list \<Rightarrow> node \<Rightarrow> node outcome" where
  "run J [] s = Done s"
| "run J (e # es) s =
     (case step J e s of
        Done s' \<Rightarrow> run J es s'
      | Blocked \<Rightarrow> Blocked
      | Panicked \<Rightarrow> Panicked)"

definition init_node :: "redis \<Rightarrow> node" where
  "init_node r = \<lparr>clients = Map.empty, client_lock = {}, numClients = 0, heap = [],
                   subscriptions = [], socket_ops = [], logs = [], rdb = r, inLoop = {}\<rparr>"

text \<open>The number of connections in the buckets of all sessions.\<close>

definition liveConnections :: "node \<Rightarrow> nat" where
  "liveConnections s = (\<Sum>sid\<in>dom (clients s). length (the (clients s sid)))"

text \<open>A request to \<^verbatim>\<open>/ws\<close> that the node accepts for the session \<open>k\<close>.\<close>

fun accepted :: "string \<Rightarrow> event \<Rightarrow> bool" where
  "accepted k (Connect sid isHostParam upgraded now) = (sid = k \<and> sid \<noteq> [] \<and> upgraded \<noteq> None)"
| "accepted k (Disconnect p) = False"


text \<open>
  \<open>cleanupClient\<close> closes the socket of a connection in the branch of its loop that takes
  the connection out of its bucket, and nowhere else, and no other handler closes a
  socket: the sockets closed so far are the connections removed so far.
\<close>

fun is_Close :: "socket_op \<Rightarrow> bool" where
  "is_Close (Close h) = True"
| "is_Close (Write h v) = False"

definition removals :: "node \<Rightarrow> nat" where
  "removals s = length (filter is_Close (socket_ops s))"

subsection \<open>Auxiliary notions for the runs\<close>

text \<open>
  The invariant of the runs, for a set \<open>L\<close> of live connections (addresses): the buckets
  hold exactly the connections of \<open>L\<close>, each once and in the bucket of its session, with a
  channel that is open, and the load counter is the number of connections in the buckets.
\<close>

definition node_inv :: "nat set \<Rightarrow> node \<Rightarrow> bool" where
  "node_inv L s \<longleftrightarrow>
     finite (dom (clients s)) \<and>
     (\<forall>sid cs. clients s sid = Some cs \<longrightarrow>
        distinct cs \<and> (\<forall>e\<in>set cs. \<exists>p\<in>L. e = Some p \<and> sessionID (heap s ! p) = sid)) \<and>
     (\<forall>p\<in>L. p < length (heap s) \<and> sessionID (heap s ! p) \<noteq> [] \<and>
        (\<exists>ch. send (heap s ! p) = Some ch \<and> \<not> closed ch) \<and>
        (\<exists>cs. clients s (sessionID (heap s ! p)) = Some cs \<and> Some p \<in> set cs)) \<and>
     numClients s = int (liveConnections s)"

definition total :: "('k \<rightharpoonup> 'a list) \<Rightarrow> nat" where
  "total m = (\<Sum>k\<in>dom m. length (the (m k)))"

text \<open>
  The state of \<open>handleWebSocket\<close> after it has stored the new connection and subscribed.
\<close>

definition registered :: "string \<Rightarrow> bool \<Rightarrow> nat \<Rightarrow> node \<Rightarrow> node" where
  "registered sid host h s =
     subscribeToSessionUpdates sid
       (s\<lparr>heap := heap s @ [\<lparr>conn = Some h, sessionID = sid, isHost = host,
                                send = Some (make_chan 256)\<rparr>],
          client_lock := insert sid (client_lock s),
          clients := (clients s)(sid \<mapsto>
             (case clients s sid of None \<Rightarrow> [] | Some cs \<Rightarrow> cs) @ [Some (length (heap s))]),
          numClients := numClients s + 1\<rparr>)"

text \<open>
  The bookkeeping of the runs: every connection ever made has a socket, and the load
  counter and the number of connections removed add up to the number of connections made.
\<close>

definition count_inv :: "node \<Rightarrow> bool" where
  "count_inv s \<longleftrightarrow>
     (\<forall>c\<in>set (heap s). conn c \<noteq> None) \<and>
     numClients s + int (removals s) = int (length (heap s))"

text \<open>The subscriptions an event makes.\<close>

fun subs_of :: "event \<Rightarrow> string list" where
  "subs_of (Connect sid isHostParam upgraded now) =
     (if sid \<noteq> [] \<and> upgraded \<noteq> None then [''session-updates:'' @ sid] else [])"
| "subs_of (Disconnect p) = []"

subsection \<open>Auxiliary notions for topic delivery\<close>

text \<open>
  \<open>targets h cs\<close> lists, in the order of the snapshot \<open>cs\<close>, the connections that the
  loops of \<open>broadcastState\<close> do not skip: the entries whose pointer and socket are not
  nil. \<open>push\<close> is what a non-blocking send does to an open channel, \<open>deliver\<close> what it
  does to a connection, and \<open>room\<close> is the number of free places in the queue of a
  connection. \<open>sendable h cs\<close> holds when the targets are distinct connections of the
  heap with no closed channel, as they are in every state that the node reaches
  (\<open>node_inv_sendable\<close>). \<open>updates st clk j m\<close> are the payloads of \<open>m\<close> successive turns
  of the outer loop, the first with the clock reading number \<open>j\<close>.
\<close>

fun targets :: "ClientConnection list \<Rightarrow> nat option list \<Rightarrow> nat list" where
  "targets h [] = []"
| "targets h (None # cs) = targets h cs"
| "targets h (Some p # cs) = (if conn (h ! p) = None then targets h cs else p # targets h cs)"

definition push :: "payload \<Rightarrow> chan \<Rightarrow> chan" where
  "push v c = (if length (buf c) < cap c then c\<lparr>buf := buf c @ [v]\<rparr> else c)"

definition deliver :: "payload \<Rightarrow> ClientConnection \<Rightarrow> ClientConnection" where
  "deliver v c = (case send c of None \<Rightarrow> c | Some ch \<Rightarrow> c\<lparr>send := Some (push v ch)\<rparr>)"

definition room :: "ClientConnection \<Rightarrow> nat" where
  "room c = (case send c of None \<Rightarrow> 0 | Some ch \<Rightarrow> cap ch - length (buf ch))"

definition sendable :: "ClientConnection list \<Rightarrow> nat option list \<Rightarrow> bool" where
  "sendable h cs \<longleftrightarrow>
     distinct (targets h cs) \<and>
     (\<forall>p\<in>set (targets h cs). p < length h \<and> (\<forall>ch. send (h ! p) = Some ch \<longrightarrow> \<not> closed ch))"

definition updates :: "string \<Rightarrow> (nat \<Rightarrow> instant) \<Rightarrow> nat \<Rightarrow> nat \<Rightarrow> payload list" where
  "updates st clk j m = map (\<lambda>i. StateUpdate st (UnixMilli (clk i))) [j..<j + m]"

fun deliver_all :: "payload list \<Rightarrow> ClientConnection \<Rightarrow> ClientConnection" where
  "deliver_all [] c = c"
| "deliver_all (v # vs) c = deliver_all vs (deliver v c)"

text \<open>
  Two heaps of the same shape: the same connections with the same sessions and sockets,
  and no open channel of the first is closed or nil in the second.
\<close>

definition same_shape :: "ClientConnection list \<Rightarrow> ClientConnection list \<Rightarrow> bool" where
  "same_shape h h' \<longleftrightarrow>
     length h' = length h \<and>
     (\<forall>q. sessionID (h' ! q) = sessionID (h ! q) \<and> conn (h' ! q) = conn (h ! q) \<and>
          ((\<exists>ch. send (h ! q) = Some ch \<and> \<not> closed ch) \<longrightarrow>
           (\<exists>ch. send (h' ! q) = Some ch \<and> \<not> closed ch)))"

section \<open>Sample data\<close>

text \<open>The concrete values at which the theorems below are instantiated.\<close>

definition srvA :: StreamingServer where
  "srvA = \<lparr>ID = ''a'', URL = ''http://a:8081'', Capacity = 100, CurrentLoad = 40,
            Status = ''active'', LastPing = 0, Registered = 0\<rparr>"

definition srvB :: StreamingServer where
  "srvB = \<lparr>ID = ''b'', URL = ''b:8081/'', Capacity = 10, CurrentLoad = 1,
            Status = ''active'', LastPing = 0, Registered = 0\<rparr>"

definition srvC :: StreamingServer where
  "srvC = \<lparr>ID = ''c'', URL = ''http://c:8081'', Capacity = 10, CurrentLoad = 0,
            Status = ''inactive'', LastPing = 0, Registered = 0\<rparr>"

text \<open>A node at its capacity, two nodes whose quotients are the same double, and a node
  whose load and capacity are not both doubles.\<close>

definition srvF :: StreamingServer where
  "srvF = \<lparr>ID = ''f'', URL = ''http://f:8081'', Capacity = 10, CurrentLoad = 10,
            Status = ''active'', LastPing = 0, Registered = 0\<rparr>"

definition srvP :: StreamingServer where
  "srvP = \<lparr>ID = ''p'', URL = ''http://p:8081'', Capacity = 100000000, CurrentLoad = 99999999,
            Status = ''active'', LastPing = 0, Registered = 0\<rparr>"

definition srvQ :: StreamingServer where
  "srvQ = \<lparr>ID = ''q'', URL = ''http://q:8081'', Capacity = 99999999, CurrentLoad = 99999998,
            Status = ''active'', LastPing = 0, Registered = 0\<rparr>"

definition srvG :: StreamingServer where
  "srvG = \<lparr>ID = ''g'', URL = ''http://g:8081'', Capacity = 9007199254740993,
            CurrentLoad = 9007199254740992, Status = ''active'', LastPing = 0, Registered = 0\<rparr>"

definition sample_marshal :: "SessionState \<Rightarrow> string" where
  "sample_marshal st = (if Paused st then ''{paused}'' else ''{playing}'')"

definition sample_keyspace :: redis where
  "sample_keyspace = \<lparr>kv = [''session:abc'' \<mapsto> ''active'', ''session:abc:host'' \<mapsto> ''tok'',
                             ''session:abc:state'' \<mapsto> ''ts=5000''],
                       published = [], faults = []\<rparr>"

definition sample_state :: "int \<Rightarrow> RedisState" where
  "sample_state t = \<lparr>Paused = False, CurrentTime = 10, PlaybackRate = 1, Timestamp = t\<rparr>"

definition sample_codec :: codec where
  "sample_codec =
     \<lparr>unmarshalEnvelope = map_of [(''update 6000'', (''stateUpdate'', ''ts=6000'')),
                                  (''update 5000'', (''stateUpdate'', ''ts=5000''))],
      unmarshalState = map_of [(''ts=5000'', sample_state 5000), (''ts=6000'', sample_state 6000)],
      unmarshalRaw = Some,
      marshalRaw = Some\<rparr>"

definition sample_host :: ClientConnection where
  "sample_host = \<lparr>conn = Some 1, sessionID = ''abc'', isHost = True,
                   send = Some (make_chan 256)\<rparr>"

definition sample_viewer :: ClientConnection where
  "sample_viewer = \<lparr>conn = Some 2, sessionID = ''abc'', isHost = False,
                     send = Some \<lparr>buf = replicate 256 (StateUpdate ''ts=5000'' 0), cap = 256, closed = False\<rparr>\<rparr>"

definition sample_node :: node where
  "sample_node = \<lparr>clients = [''abc'' \<mapsto> [Some 0, Some 1]], client_lock = {''abc''},
                   numClients = 2, heap = [sample_host, sample_viewer],
                   subscriptions = [''session-updates:abc'', ''session-updates:abc''],
                   socket_ops = [], logs = [], rdb = sample_keyspace, inLoop = {0, 1}\<rparr>"

definition sample_clock :: "nat \<Rightarrow> instant" where
  "sample_clock j = 1700000000000000000 + int j * 1000000"

definition sample_events :: "event list" where
  "sample_events = [Connect ''abc'' ''true'' (Some 1) 0, Connect ''abc'' ''false'' (Some 2) 0,
                    Connect ''xyz'' ''false'' (Some 3) 0, Disconnect 0]"

section \<open>Properties of the director\<close>

subsection \<open>Rounding\<close>

text \<open>
  The comparison is a strict order apart from NaN. Rounding keeps the order, of the
  integers converted and of the quotients, so it never takes a quotient of at least one
  below one.
\<close>

lemma pow2_powr: "pow2 e = 2 powr real_of_int e"
proof (cases "0 \<le> e")
  case True
  then show ?thesis
    using powr_realpow [of 2 "nat e"] by (simp add: pow2_def)
next
  case False
  have "2 powr real_of_int e = inverse (2 powr real_of_int (- e))"
    by (simp add: powr_minus)
  also have "2 powr real_of_int (- e) = 2 ^ nat (- e)"
    using powr_realpow [of 2 "nat (- e)"] False by simp
  finally show ?thesis
    using False by (simp add: pow2_def divide_inverse)
qed

lemma pow2_pos: "0 < pow2 e"
  by (simp add: pow2_powr)

lemma pow2_mono: "a \<le> b \<Longrightarrow> pow2 a \<le> pow2 b"
  by (simp add: pow2_powr)

lemma pow2_less_cancel: "pow2 a < pow2 b \<Longrightarrow> a < b"
  by (simp add: pow2_powr)

lemma pow2_add: "pow2 (a + b) = pow2 a * pow2 b"
  by (simp add: pow2_powr powr_add)

lemma bitlen_real_bounds:
  assumes "0 < x"
  shows "pow2 (bitlen x - 1) \<le> real_of_int x" and "real_of_int x < pow2 (bitlen x)"
proof -
  have b: "1 \<le> bitlen x"
    using assms bitlen_eq_zero_iff [of x] bitlen_nonneg [of x] by linarith
  have "real_of_int (2 ^ nat (bitlen x - 1)) \<le> real_of_int x"
    using bitlen_bounds [OF assms] by (simp only: of_int_le_iff)
  then show "pow2 (bitlen x - 1) \<le> real_of_int x"
    using b by (simp add: pow2_def)
  have "real_of_int x < real_of_int (2 ^ nat (bitlen x))"
    using bitlen_bounds [OF assms] by (simp only: of_int_less_iff)
  then show "real_of_int x < pow2 (bitlen x)"
    using b by (simp add: pow2_def)
qed

lemma exponent_test:
  assumes "0 < y"
  shows "(if 0 \<le> d then y * 2 ^ nat d \<le> x else y \<le> x * 2 ^ nat (- d))
         = (pow2 d * real_of_int y \<le> real_of_int x)"
proof (cases "0 \<le> d")
  case True
  have "(y * 2 ^ nat d \<le> x) = (real_of_int (y * 2 ^ nat d) \<le> real_of_int x)"
    by (simp only: of_int_le_iff)
  then show ?thesis
    using True by (simp add: pow2_def mult.commute)
next
  case False
  have "(y \<le> x * 2 ^ nat (- d)) = (real_of_int y \<le> real_of_int (x * 2 ^ nat (- d)))"
    by (simp only: of_int_le_iff)
  then show ?thesis
    using False by (simp add: pow2_def field_simps)
qed

lemma exponent_bounds:
  assumes x: "0 < x" and y: "0 < y"
  shows "pow2 (exponent x y) * real_of_int y \<le> real_of_int x"
    and "real_of_int x < pow2 (exponent x y + 1) * real_of_int y"
proof -
  define d where "d = bitlen x - bitlen y"
  have k: "exponent x y = (if pow2 d * real_of_int y \<le> real_of_int x then d else d - 1)"
    unfolding exponent_def Let_def d_def [symmetric] exponent_test [OF y] ..
  have ry: "0 < real_of_int y"
    using y by simp
  have up: "real_of_int x < pow2 (d + 1) * real_of_int y"
  proof -
    have "real_of_int x < pow2 (bitlen x)"
      using x by (rule bitlen_real_bounds)
    also have "pow2 (bitlen x) = pow2 (d + 1) * pow2 (bitlen y - 1)"
      by (simp add: d_def flip: pow2_add)
    also have "\<dots> \<le> pow2 (d + 1) * real_of_int y"
      using bitlen_real_bounds(1) [OF y] pow2_pos [of "d + 1"] by (intro mult_left_mono) simp_all
    finally show ?thesis .
  qed
  have low: "pow2 (d - 1) * real_of_int y \<le> real_of_int x"
  proof -
    have "pow2 (d - 1) * real_of_int y \<le> pow2 (d - 1) * pow2 (bitlen y)"
      using bitlen_real_bounds(2) [OF y] pow2_pos [of "d - 1"] by (intro mult_left_mono) simp_all
    also have "\<dots> = pow2 (bitlen x - 1)"
      by (simp add: d_def flip: pow2_add)
    also have "\<dots> \<le> real_of_int x"
      using x by (rule bitlen_real_bounds)
    finally show ?thesis .
  qed
  show "pow2 (exponent x y) * real_of_int y \<le> real_of_int x"
    using low by (simp add: k)
  show "real_of_int x < pow2 (exponent x y + 1) * real_of_int y"
    using up by (simp add: k)
qed

lemma f64_less_irrefl: "\<not> f64_less x x"
  by (cases x) simp_all

lemma f64_less_trans: "f64_less x y \<Longrightarrow> f64_less y z \<Longrightarrow> f64_less x z"
  by (cases x; cases y; cases z) simp_all

lemma bitlen_mono: "x \<le> y \<Longrightarrow> bitlen x \<le> bitlen y"
  by (simp add: bitlen_def floorlog_mono nat_mono)

lemma round_even_floor: "n div d \<le> round_even n d \<and> round_even n d \<le> n div d + 1"
  by (simp add: round_even_def Let_def)

lemma round_even_ge:
  assumes "0 < d" and "q * d \<le> n"
  shows "q \<le> round_even n d"
proof -
  have "(q * d) div d \<le> n div d"
    using assms by (intro zdiv_mono1) simp_all
  then have "q \<le> n div d"
    using assms by simp
  then show ?thesis
    using round_even_floor [of n d] by linarith
qed

lemma round_even_le:
  assumes "0 < d" and "n \<le> q * d"
  shows "round_even n d \<le> q"
proof (cases "n div d < q")
  case True
  then show ?thesis
    using round_even_floor [of n d] by linarith
next
  case False
  then have "q \<le> n div d"
    by simp
  then have "q * d \<le> (n div d) * d"
    using assms by (simp add: mult_right_mono)
  also have "\<dots> \<le> n"
    using assms by (metis mult.commute pos_mod_sign add.commute le_add_same_cancel2 mult_div_mod_eq)
  finally have n: "n = q * d"
    using assms by simp
  then show ?thesis
    using assms by (simp add: round_even_def)
qed

text \<open>Rounding keeps the order of the fractions.\<close>

lemma round_even_mono:
  assumes d1: "0 < d1" and d2: "0 < d2" and le: "n1 * d2 \<le> n2 * d1"
  shows "round_even n1 d1 \<le> round_even n2 d2"
proof -
  define f1 r1 f2 r2 where "f1 = n1 div d1" and "r1 = n1 mod d1"
    and "f2 = n2 div d2" and "r2 = n2 mod d2"
  have n1: "n1 = d1 * f1 + r1" and n2: "n2 = d2 * f2 + r2"
    by (simp_all add: f1_def r1_def f2_def r2_def)
  have r1: "0 \<le> r1" "r1 < d1" and r2: "0 \<le> r2" "r2 < d2"
    using d1 d2 by (simp_all add: r1_def r2_def)
  have "real_of_int n1 / real_of_int d1 \<le> real_of_int n2 / real_of_int d2"
  proof -
    have "real_of_int (n1 * d2) \<le> real_of_int (n2 * d1)"
      using le by (simp only: of_int_le_iff)
    then show ?thesis
      using d1 d2 by (simp add: field_simps)
  qed
  then have "\<lfloor>real_of_int n1 / real_of_int d1\<rfloor> \<le> \<lfloor>real_of_int n2 / real_of_int d2\<rfloor>"
    by (rule floor_mono)
  then have f: "f1 \<le> f2"
    by (simp add: floor_divide_of_int_eq f1_def f2_def)
  show ?thesis
  proof (cases "f1 < f2")
    case True
    then show ?thesis
      using round_even_floor [of n1 d1] round_even_floor [of n2 d2]
      by (simp add: f1_def f2_def)
  next
    case False
    then have eq: "f2 = f1"
      using f by simp
    have "(d1 * f1 + r1) * d2 \<le> (d2 * f1 + r2) * d1"
      using le n1 n2 eq by simp
    then have rr: "r1 * d2 \<le> r2 * d1"
      by (simp add: algebra_simps)
    have a: "d1 < 2 * r1 \<Longrightarrow> d2 < 2 * r2"
    proof -
      assume "d1 < 2 * r1"
      then have "d1 * d2 < 2 * r1 * d2"
        using d2 by simp
      also have "\<dots> \<le> 2 * r2 * d1"
        using rr by simp
      finally show "d2 < 2 * r2"
        using d1 by simp
    qed
    have b: "d1 \<le> 2 * r1 \<Longrightarrow> d2 \<le> 2 * r2"
    proof -
      assume "d1 \<le> 2 * r1"
      then have "d1 * d2 \<le> 2 * r1 * d2"
        using d2 by simp
      also have "\<dots> \<le> 2 * r2 * d1"
        using rr by simp
      finally show "d2 \<le> 2 * r2"
        using d1 by simp
    qed
    have v1: "round_even n1 d1 = (if 2 * r1 < d1 then f1 else if d1 < 2 * r1 then f1 + 1
        else if even f1 then f1 else f1 + 1)"
      by (simp add: round_even_def Let_def f1_def r1_def)
    have v2: "round_even n2 d2 = (if 2 * r2 < d2 then f1 else if d2 < 2 * r2 then f1 + 1
        else if even f1 then f1 else f1 + 1)"
      by (simp add: round_even_def Let_def f2_def [symmetric] r2_def [symmetric] eq)
    show ?thesis
      using a b unfolding v1 v2 by (auto split: if_splits)
  qed
qed

lemma f64_of_int_of_pos:
  "0 < a \<Longrightarrow> f64_of_int a =
     (if bitlen a \<le> 53 then a
      else round_even a (2 ^ nat (bitlen a - 53)) * 2 ^ nat (bitlen a - 53))"
  by (simp add: f64_of_int_def Let_def)

lemma f64_of_int_bounds:
  assumes "0 < a"
  shows "2 ^ nat (bitlen a - 1) \<le> f64_of_int a \<and> f64_of_int a \<le> 2 ^ nat (bitlen a)"
proof (cases "bitlen a \<le> 53")
  case True
  then show ?thesis
    using assms bitlen_bounds [of a] by (simp add: f64_of_int_of_pos)
next
  case False
  define u :: int where "u = 2 ^ nat (bitlen a - 53)"
  have u: "0 < u"
    by (simp add: u_def)
  have val: "f64_of_int a = round_even a u * u"
    using False assms by (simp add: f64_of_int_of_pos u_def)
  have "nat (bitlen a - 1) = 52 + nat (bitlen a - 53)"
    using False by simp
  then have lo: "(2 ^ 52) * u = (2::int) ^ nat (bitlen a - 1)"
    by (simp only: u_def power_add)
  have "nat (bitlen a) = 53 + nat (bitlen a - 53)"
    using False by simp
  then have hi: "(2 ^ 53) * u = (2::int) ^ nat (bitlen a)"
    by (simp only: u_def power_add)
  have "2 ^ 52 \<le> round_even a u"
    using u bitlen_bounds [of a] assms lo by (intro round_even_ge) simp_all
  then have "(2 ^ 52) * u \<le> round_even a u * u"
    using u by (simp add: mult_right_mono)
  moreover have "round_even a u \<le> 2 ^ 53"
    using u bitlen_bounds [of a] assms hi by (intro round_even_le) simp_all
  then have "round_even a u * u \<le> (2 ^ 53) * u"
    using u by (simp add: mult_right_mono)
  ultimately show ?thesis
    by (simp only: val lo hi) 
qed

lemma f64_of_int_pos: "0 < a \<Longrightarrow> 0 < f64_of_int a"
  using f64_of_int_bounds [of a] zero_less_power [of "2::int" "nat (bitlen a - 1)"] by linarith

lemma f64_of_int_mono:
  assumes b: "0 < b" and le: "b \<le> a"
  shows "f64_of_int b \<le> f64_of_int a"
proof -
  have a: "0 < a"
    using b le by simp
  have bl: "bitlen b \<le> bitlen a"
    using le by (rule bitlen_mono)
  show ?thesis
  proof (cases "bitlen b < bitlen a")
    case True
    then have "nat (bitlen b) \<le> nat (bitlen a - 1)"
      by simp
    then have "(2::int) ^ nat (bitlen b) \<le> 2 ^ nat (bitlen a - 1)"
      by (intro power_increasing) simp_all
    then show ?thesis
      using f64_of_int_bounds [OF a] f64_of_int_bounds [OF b] by linarith
  next
    case False
    then have eq: "bitlen b = bitlen a"
      using bl by simp
    show ?thesis
    proof (cases "bitlen a \<le> 53")
      case True
      then show ?thesis
        using le eq a b by (simp add: f64_of_int_of_pos)
    next
      case False
      have "round_even b (2 ^ nat (bitlen a - 53)) \<le> round_even a (2 ^ nat (bitlen a - 53))"
        using le by (intro round_even_mono) simp_all
      then show ?thesis
        using False a b eq by (simp add: f64_of_int_of_pos mult_right_mono)
    qed
  qed
qed

lemma f64_of_int_minus: "f64_of_int (- a) = - f64_of_int a"
  by (simp add: f64_of_int_def Let_def)

lemma f64_of_int_neg: "a < 0 \<Longrightarrow> f64_of_int a < 0"
  using f64_of_int_pos [of "- a"] by (simp add: f64_of_int_minus)

lemma f64_of_int_exact:
  assumes "0 \<le> a" and "a \<le> 2 ^ 53"
  shows "f64_of_int a = a"
proof (cases "a = 2 ^ 53")
  case True
  have "f64_of_int 9007199254740992 = 9007199254740992"
    by code_simp
  with True show ?thesis
    by simp
next
  case False
  with assms have "a < 2 ^ 53"
    by simp
  then have "bitlen a \<le> 53"
    using bitlen_le_iff_power [of a 53] by simp
  with assms show ?thesis
    by (simp add: f64_of_int_def Let_def)
qed


lemma round_even_ge_real:
  assumes "0 < d" and "real_of_int q \<le> real_of_int n / real_of_int d"
  shows "q \<le> round_even n d"
proof -
  have "real_of_int (q * d) \<le> real_of_int n"
    using assms by (simp add: field_simps)
  then have "q * d \<le> n"
    by (simp only: of_int_le_iff)
  with assms(1) show ?thesis
    by (rule round_even_ge)
qed

lemma round_even_le_real:
  assumes "0 < d" and "real_of_int n / real_of_int d \<le> real_of_int q"
  shows "round_even n d \<le> q"
proof -
  have "real_of_int n \<le> real_of_int (q * d)"
    using assms by (simp add: field_simps)
  then have "n \<le> q * d"
    by (simp only: of_int_le_iff)
  with assms(1) show ?thesis
    by (rule round_even_le)
qed

lemma round_even_mono_real:
  assumes "0 < d1" and "0 < d2"
    and "real_of_int n1 / real_of_int d1 \<le> real_of_int n2 / real_of_int d2"
  shows "round_even n1 d1 \<le> round_even n2 d2"
proof -
  have "real_of_int (n1 * d2) \<le> real_of_int (n2 * d1)"
    using assms by (simp add: field_simps)
  then have "n1 * d2 \<le> n2 * d1"
    by (simp only: of_int_le_iff)
  with assms(1,2) show ?thesis
    by (rule round_even_mono)
qed

text \<open>
  The quotient is scaled so that its integer part has 53 bits, and that is rounded.
\<close>

lemma round53_scaled:
  assumes x: "0 < x" and y: "0 < y"
  shows "\<exists>n d. 0 < d \<and>
           round53 x y = real_of_int (round_even n d) * pow2 (exponent x y - 52) \<and>
           real_of_int n / real_of_int d =
             real_of_int x / real_of_int y / pow2 (exponent x y - 52)"
proof (cases "0 \<le> exponent x y - 52")
  case True
  let ?d = "y * 2 ^ nat (exponent x y - 52)"
  have "0 < ?d"
    using y by simp
  moreover have "round53 x y = real_of_int (round_even x ?d) * pow2 (exponent x y - 52)"
    using True by (simp add: round53_def Let_def)
  moreover have "real_of_int x / real_of_int ?d =
      real_of_int x / real_of_int y / pow2 (exponent x y - 52)"
    using True by (simp add: pow2_def)
  ultimately show ?thesis
    by blast
next
  case False
  let ?n = "x * 2 ^ nat (- (exponent x y - 52))"
  have "round53 x y = real_of_int (round_even ?n y) * pow2 (exponent x y - 52)"
    using False by (simp add: round53_def Let_def)
  moreover have "real_of_int ?n / real_of_int y =
      real_of_int x / real_of_int y / pow2 (exponent x y - 52)"
    using False by (simp add: pow2_def)
  ultimately show ?thesis
    using y by blast
qed

lemma round53_bounds:
  assumes x: "0 < x" and y: "0 < y"
  shows "pow2 (exponent x y) \<le> round53 x y" and "round53 x y \<le> pow2 (exponent x y + 1)"
proof -
  define e where "e = exponent x y - 52"
  define q where "q = real_of_int x / real_of_int y"
  from round53_scaled [OF x y] obtain n d where
    d: "0 < d" and val: "round53 x y = real_of_int (round_even n d) * pow2 e"
    and t: "real_of_int n / real_of_int d = q / pow2 e"
    unfolding e_def q_def by blast
  have "exponent x y = 52 + e" and "exponent x y + 1 = 53 + e"
    by (simp_all add: e_def)
  moreover have "pow2 52 = 2 ^ 52" and "pow2 53 = 2 ^ 53"
    by (simp_all add: pow2_def)
  ultimately have k: "pow2 (exponent x y) = 2 ^ 52 * pow2 e"
    and k1: "pow2 (exponent x y + 1) = 2 ^ 53 * pow2 e"
    by (simp_all only: pow2_add)
  have ry: "0 < real_of_int y"
    using y by simp
  have "pow2 (exponent x y) \<le> q"
    using exponent_bounds(1) [OF x y] ry by (simp add: q_def field_simps)
  then have "2 ^ 52 * pow2 e \<le> q"
    by (simp only: k)
  then have "2 ^ 52 \<le> q / pow2 e"
    by (simp add: pos_le_divide_eq pow2_pos)
  then have "real_of_int (2 ^ 52) \<le> real_of_int n / real_of_int d"
    by (simp add: t)
  with d have "2 ^ 52 \<le> round_even n d"
    by (rule round_even_ge_real)
  then have "real_of_int (2 ^ 52) \<le> real_of_int (round_even n d)"
    by (simp only: of_int_le_iff)
  then have "2 ^ 52 * pow2 e \<le> real_of_int (round_even n d) * pow2 e"
    using pow2_pos [of e] by simp
  then show "pow2 (exponent x y) \<le> round53 x y"
    by (simp only: k val)
  have "q \<le> pow2 (exponent x y + 1)"
    using exponent_bounds(2) [OF x y] ry by (simp add: q_def field_simps)
  then have "q \<le> 2 ^ 53 * pow2 e"
    by (simp only: k1)
  then have "q / pow2 e \<le> 2 ^ 53"
    by (simp add: pos_divide_le_eq pow2_pos)
  then have "real_of_int n / real_of_int d \<le> real_of_int (2 ^ 53)"
    by (simp add: t)
  with d have "round_even n d \<le> 2 ^ 53"
    by (rule round_even_le_real)
  then have "real_of_int (round_even n d) \<le> real_of_int (2 ^ 53)"
    by (simp only: of_int_le_iff)
  then have "real_of_int (round_even n d) * pow2 e \<le> 2 ^ 53 * pow2 e"
    using pow2_pos [of e] by simp
  then show "round53 x y \<le> pow2 (exponent x y + 1)"
    by (simp only: k1 val)
qed

lemma round53_mono:
  assumes x1: "0 < x1" and y1: "0 < y1" and x2: "0 < x2" and y2: "0 < y2"
    and le: "x1 * y2 \<le> x2 * y1"
  shows "round53 x1 y1 \<le> round53 x2 y2"
proof -
  have q: "real_of_int x1 / real_of_int y1 \<le> real_of_int x2 / real_of_int y2"
  proof -
    have "real_of_int (x1 * y2) \<le> real_of_int (x2 * y1)"
      using le by (simp only: of_int_le_iff)
    then show ?thesis
      using y1 y2 by (simp add: field_simps)
  qed
  have "pow2 (exponent x1 y1) \<le> real_of_int x1 / real_of_int y1"
    using exponent_bounds(1) [OF x1 y1] y1 by (simp add: field_simps)
  also note q
  also have "real_of_int x2 / real_of_int y2 < pow2 (exponent x2 y2 + 1)"
    using exponent_bounds(2) [OF x2 y2] y2 by (simp add: field_simps)
  finally have "exponent x1 y1 < exponent x2 y2 + 1"
    by (rule pow2_less_cancel)
  then have k: "exponent x1 y1 \<le> exponent x2 y2"
    by simp
  show ?thesis
  proof (cases "exponent x1 y1 < exponent x2 y2")
    case True
    have "round53 x1 y1 \<le> pow2 (exponent x1 y1 + 1)"
      using x1 y1 by (rule round53_bounds)
    also have "\<dots> \<le> pow2 (exponent x2 y2)"
      using True by (intro pow2_mono) simp
    also have "\<dots> \<le> round53 x2 y2"
      using x2 y2 by (rule round53_bounds)
    finally show ?thesis .
  next
    case False
    then have eq: "exponent x2 y2 = exponent x1 y1"
      using k by simp
    define e where "e = exponent x1 y1 - 52"
    from round53_scaled [OF x1 y1] obtain n1 d1 where
      d1: "0 < d1" and v1: "round53 x1 y1 = real_of_int (round_even n1 d1) * pow2 e"
      and t1: "real_of_int n1 / real_of_int d1 = real_of_int x1 / real_of_int y1 / pow2 e"
      unfolding e_def by blast
    from round53_scaled [OF x2 y2] obtain n2 d2 where
      d2: "0 < d2" and v2: "round53 x2 y2 = real_of_int (round_even n2 d2) * pow2 e"
      and t2: "real_of_int n2 / real_of_int d2 = real_of_int x2 / real_of_int y2 / pow2 e"
      unfolding e_def eq by blast
    have "real_of_int x1 / real_of_int y1 / pow2 e \<le> real_of_int x2 / real_of_int y2 / pow2 e"
      using q by (rule divide_right_mono) (rule less_imp_le [OF pow2_pos])
    then have "real_of_int n1 / real_of_int d1 \<le> real_of_int n2 / real_of_int d2"
      by (simp only: t1 t2)
    with d1 d2 have "round_even n1 d1 \<le> round_even n2 d2"
      by (rule round_even_mono_real)
    then have "real_of_int (round_even n1 d1) \<le> real_of_int (round_even n2 d2)"
      by (simp only: of_int_le_iff)
    then show ?thesis
      unfolding v1 v2 using pow2_pos [of e] by simp
  qed
qed

lemma round53_pos:
  assumes "0 < x" and "0 < y"
  shows "0 < round53 x y"
  using round53_bounds(1) [OF assms] pow2_pos [of "exponent x y"] by linarith

lemma round53_ge_1:
  assumes y: "0 < y" and le: "y \<le> x"
  shows "1 \<le> round53 x y"
proof -
  have "round53 1 1 = 1"
    by code_simp
  moreover have "round53 1 1 \<le> round53 x y"
    using y le by (intro round53_mono) simp_all
  ultimately show ?thesis
    by simp
qed

lemma round53_less_1:
  assumes x: "0 < x" and less: "x < y" and y: "y \<le> 2 ^ 53"
  shows "round53 x y < 1"
proof -
  have "y \<le> 2 ^ 53 * 1"
    using y by simp
  also have "\<dots> \<le> 2 ^ 53 * (y - x)"
    using less by (intro mult_left_mono) simp_all
  finally have "x * 2 ^ 53 \<le> (2 ^ 53 - 1) * y"
    by (simp add: algebra_simps)
  then have "round53 x y \<le> round53 (2 ^ 53 - 1) (2 ^ 53)"
    using x less by (intro round53_mono) simp_all
  also have "round53 (2 ^ 53 - 1) (2 ^ 53) < 1"
    by code_simp
  finally show ?thesis .
qed

lemma f64_div_pos:
  assumes "0 < a" and "0 < b"
  shows "f64_div a b = Fin (round53 (f64_of_int a) (f64_of_int b))"
  using f64_of_int_pos [OF assms(1)] f64_of_int_pos [OF assms(2)]
  by (simp add: f64_div_def Let_def)

lemma f64_div_at_capacity:
  assumes b: "0 < b" and le: "b \<le> a"
  shows "\<not> f64_less (f64_div a b) (Fin 1)"
proof -
  have "1 \<le> round53 (f64_of_int a) (f64_of_int b)"
    using b le by (intro round53_ge_1 f64_of_int_pos f64_of_int_mono)
  moreover have "0 < a"
    using b le by simp
  ultimately show ?thesis
    using b by (simp add: f64_div_pos)
qed

lemma f64_div_below_capacity:
  assumes less: "a < b" and b: "0 < b" "b \<le> 2 ^ 53"
  shows "f64_less (f64_div a b) (Fin 1)"
proof -
  have y: "f64_of_int b = b"
    using b by (intro f64_of_int_exact) simp_all
  consider "a < 0" | "a = 0" | "0 < a"
    by linarith
  then show ?thesis
  proof cases
    case 1
    then have x: "f64_of_int a < 0"
      by (rule f64_of_int_neg)
    then have "0 < round53 \<bar>f64_of_int a\<bar> b"
      using b by (intro round53_pos) simp_all
    then have "- round53 \<bar>f64_of_int a\<bar> b < 1"
      by linarith
    with x b show ?thesis
      by (simp add: f64_div_def Let_def y)
  next
    case 2
    have "f64_of_int 0 = 0"
      by (simp add: f64_of_int_def)
    with 2 b show ?thesis
      by (simp add: f64_div_def Let_def y)
  next
    case 3
    then have x: "f64_of_int a = a"
      using less b by (intro f64_of_int_exact) simp_all
    have "round53 a b < 1"
      using 3 less b by (intro round53_less_1)
    with 3 b show ?thesis
      by (simp add: f64_div_pos x y)
  qed
qed

text \<open>Where the conversions are exact, the rounded quotients keep the order of the exact ones.\<close>

lemma f64_div_mono:
  assumes a1: "0 \<le> a1" "a1 \<le> 2 ^ 53" and b1: "0 < b1" "b1 \<le> 2 ^ 53"
    and a2: "0 \<le> a2" "a2 \<le> 2 ^ 53" and b2: "0 < b2" "b2 \<le> 2 ^ 53"
    and le: "a1 * b2 \<le> a2 * b1"
  shows "\<not> f64_less (f64_div a2 b2) (f64_div a1 b1)"
proof -
  have c: "f64_of_int a1 = a1" "f64_of_int b1 = b1" "f64_of_int a2 = a2" "f64_of_int b2 = b2"
    using a1 b1 a2 b2 by (simp_all add: f64_of_int_exact)
  show ?thesis
  proof (cases "a1 = 0")
    case True
    have z: "f64_div 0 b1 = Fin 0"
      using b1 c(2) by (simp add: f64_div_def Let_def f64_of_int_def)
    show ?thesis
    proof (cases "a2 = 0")
      case True
      then have "f64_div a2 b2 = Fin 0"
        using b2 c(4) by (simp add: f64_div_def Let_def f64_of_int_def)
      with z \<open>a1 = 0\<close> show ?thesis
        by simp
    next
      case False
      then have p: "0 < a2"
        using a2 by simp
      then have "0 < round53 a2 b2"
        using b2 by (intro round53_pos)
      with z \<open>a1 = 0\<close> p b2 show ?thesis
        by (simp add: f64_div_pos c)
    qed
  next
    case False
    then have p1: "0 < a1"
      using a1 by simp
    have p2: "0 < a2"
    proof (rule ccontr)
      assume "\<not> 0 < a2"
      then have "a2 = 0"
        using a2 by simp
      moreover have "0 < a1 * b2"
        using p1 b2 by simp
      ultimately show False
        using le by simp
    qed
    have "round53 a1 b1 \<le> round53 a2 b2"
      using p1 b1 p2 b2 le by (intro round53_mono)
    with p1 p2 b1 b2 show ?thesis
      by (simp add: f64_div_pos c)
  qed
qed

lemma f64_div_finite: "0 < b \<Longrightarrow> \<exists>u. f64_div a b = Fin u"
  using f64_of_int_pos [of b] by (simp add: f64_div_def Let_def)

subsection \<open>Node selection\<close>

lemma selectable_below_capacity:
  assumes "selectable s" and "0 < Capacity s"
  shows "CurrentLoad s < Capacity s"
proof (rule ccontr)
  assume "\<not> CurrentLoad s < Capacity s"
  then have "\<not> f64_less (load s) (Fin 1)"
    using assms(2) unfolding load_def by (intro f64_div_at_capacity) simp_all
  with assms(1) show False
    by (simp add: selectable_def)
qed

lemma below_capacity_selectable:
  assumes "Status s = ''active''" and "CurrentLoad s < Capacity s"
    and "0 < Capacity s" and "Capacity s \<le> 2 ^ 53"
  shows "selectable s"
  using assms by (simp add: selectable_def load_def f64_div_below_capacity)

lemma load_mono:
  assumes s: "exactly_converted s" and b: "exactly_converted b" and le: "ratio s \<le> ratio b"
  shows "\<not> f64_less (load b) (load s)"
proof -
  have "real_of_int (CurrentLoad s * Capacity b) \<le> real_of_int (CurrentLoad b * Capacity s)"
    using s b le by (simp add: exactly_converted_def ratio_def field_simps)
  then have "CurrentLoad s * Capacity b \<le> CurrentLoad b * Capacity s"
    by (simp only: of_int_le_iff)
  with s b show ?thesis
    unfolding load_def exactly_converted_def by (intro f64_div_mono) simp_all
qed

lemma load_same:
  assumes s: "exactly_converted s" and b: "exactly_converted b" and le: "ratio s \<le> ratio b"
    and least: "\<not> f64_less (load s) (load b)"
  shows "load s = load b"
proof -
  from s obtain u where u: "load s = Fin u"
    using f64_div_finite [of "Capacity s" "CurrentLoad s"] by (auto simp: exactly_converted_def load_def)
  from b obtain v where v: "load b = Fin v"
    using f64_div_finite [of "Capacity b" "CurrentLoad b"] by (auto simp: exactly_converted_def load_def)
  from load_mono [OF s b le] least show ?thesis
    by (simp add: u v)
qed

text \<open>
  The invariant of the loop: \<^verbatim>\<open>lowestLoad\<close> is \<^verbatim>\<open>1.0\<close> while no entry is taken, and
  the \<^verbatim>\<open>load\<close> of the entry taken otherwise, which is below \<^verbatim>\<open>1.0\<close>; it only goes
  down; and no active entry visited has a \<^verbatim>\<open>load\<close> below it.
\<close>

lemma leastLoaded_loop_inv:
  assumes "leastLoaded_loop reg ks (best, low) = (best', low')"
    and "best = None \<and> low = Fin 1 \<or>
         (\<exists>b. best = Some b \<and> b \<in> ran reg \<and> Status b = ''active'' \<and> low = load b
               \<and> f64_less low (Fin 1))"
  shows "(best' = None \<and> low' = Fin 1 \<or>
          (\<exists>b. best' = Some b \<and> b \<in> ran reg \<and> Status b = ''active'' \<and> low' = load b
                \<and> f64_less low' (Fin 1))) \<and>
         (best' = best \<and> low' = low \<or> f64_less low' low) \<and>
         (\<forall>k\<in>set ks. \<forall>s. reg k = Some s \<longrightarrow> Status s = ''active''
            \<longrightarrow> \<not> f64_less (load s) low')"
  using assms
proof (induction ks arbitrary: best low)
  case Nil
  then show ?case
    by simp
next
  case (Cons k ks)
  show ?case
  proof (cases "reg k")
    case None
    with Cons.prems(1) have "leastLoaded_loop reg ks (best, low) = (best', low')"
      by simp
    from Cons.IH [OF this Cons.prems(2)] None show ?thesis
      by simp
  next
    case (Some s)
    show ?thesis
    proof (cases "Status s = ''active'' \<and> f64_less (load s) low")
      case True
      with Cons.prems(1) Some
      have run: "leastLoaded_loop reg ks (Some s, load s) = (best', low')"
        by (simp add: load_def)
      have below: "f64_less (load s) (Fin 1)"
        using True Cons.prems(2) by (auto intro: f64_less_trans)
      have "s \<in> ran reg"
        using Some by (auto simp: ran_def)
      with True below
      have "Some s = None \<and> load s = Fin 1 \<or>
            (\<exists>b. Some s = Some b \<and> b \<in> ran reg \<and> Status b = ''active'' \<and> load s = load b
                  \<and> f64_less (load s) (Fin 1))"
        by simp
      from Cons.IH [OF run this]
      have ih1: "best' = None \<and> low' = Fin 1 \<or>
          (\<exists>b. best' = Some b \<and> b \<in> ran reg \<and> Status b = ''active'' \<and> low' = load b
                \<and> f64_less low' (Fin 1))"
        and ih2: "best' = Some s \<and> low' = load s \<or> f64_less low' (load s)"
        and ih3: "\<forall>k\<in>set ks. \<forall>s. reg k = Some s \<longrightarrow> Status s = ''active''
            \<longrightarrow> \<not> f64_less (load s) low'"
        by blast+
      have down: "f64_less low' low"
        using ih2 True by (auto intro: f64_less_trans)
      have here: "\<not> f64_less (load s) low'"
        using ih2 f64_less_irrefl f64_less_trans by blast
      from ih1 ih3 down here Some show ?thesis
        by simp
    next
      case False
      with Cons.prems(1) Some
      have run: "leastLoaded_loop reg ks (best, low) = (best', low')"
        by (auto simp: load_def split: if_splits)
      from Cons.IH [OF run Cons.prems(2)]
      have ih1: "best' = None \<and> low' = Fin 1 \<or>
          (\<exists>b. best' = Some b \<and> b \<in> ran reg \<and> Status b = ''active'' \<and> low' = load b
                \<and> f64_less low' (Fin 1))"
        and ih2: "best' = best \<and> low' = low \<or> f64_less low' low"
        and ih3: "\<forall>k\<in>set ks. \<forall>s. reg k = Some s \<longrightarrow> Status s = ''active''
            \<longrightarrow> \<not> f64_less (load s) low'"
        by blast+
      have here: "Status s = ''active'' \<longrightarrow> \<not> f64_less (load s) low'"
        using ih2 False f64_less_trans by blast
      from ih1 ih2 ih3 here Some show ?thesis
        by simp
    qed
  qed
qed

lemma getLeastLoadedServer_spec:
  assumes keys: "set keys = dom reg"
  shows "(case getLeastLoadedServer reg keys of
            None \<Rightarrow> \<forall>s\<in>ran reg. \<not> selectable s
          | Some b \<Rightarrow> b \<in> ran reg \<and> selectable b \<and>
              (\<forall>s\<in>ran reg. Status s = ''active'' \<longrightarrow> \<not> f64_less (load s) (load b)))"
proof -
  obtain best' low' where run: "leastLoaded_loop reg keys (None, Fin 1) = (best', low')"
    by (cases "leastLoaded_loop reg keys (None, Fin 1)")
  then have res: "getLeastLoadedServer reg keys = best'"
    by (simp add: getLeastLoadedServer_def)
  from leastLoaded_loop_inv [OF run]
  have taken: "best' = None \<and> low' = Fin 1 \<or>
          (\<exists>b. best' = Some b \<and> b \<in> ran reg \<and> Status b = ''active'' \<and> low' = load b
                \<and> f64_less low' (Fin 1))"
    and visited: "\<forall>k\<in>set keys. \<forall>s. reg k = Some s \<longrightarrow> Status s = ''active''
            \<longrightarrow> \<not> f64_less (load s) low'"
    by simp_all
  have all: "\<not> f64_less (load s) low'" if "s \<in> ran reg" "Status s = ''active''" for s
    using that visited keys by (auto simp: ran_def dom_def)
  show ?thesis
  proof (cases best')
    case None
    with taken have "low' = Fin 1"
      by simp
    with all None res show ?thesis
      by (auto simp: selectable_def)
  next
    case (Some b)
    with taken have "b \<in> ran reg" "Status b = ''active''" "low' = load b" "f64_less low' (Fin 1)"
      by auto
    with all Some res show ?thesis
      by (auto simp: selectable_def)
  qed
qed

text \<open>
  Claim C6, as amended. When the loop visits every key of the registry, in whatever order:
  \<open>getLeastLoadedServer\<close> returns no server iff no entry is active with a \<^verbatim>\<open>load\<close>, the
  \<^verbatim>\<open>float64\<close> quotient of its load and its capacity, below \<^verbatim>\<open>1.0\<close>; a server it returns
  is such an entry of the registry, and no active entry has a \<^verbatim>\<open>load\<close> below its own: an
  active entry whose exact ratio is not above that of the server returned has the same
  \<^verbatim>\<open>load\<close>, where the loads and capacities of both are converted exactly. An entry with a
  positive capacity that is taken has its load below its capacity; and an active entry
  with a capacity from 1 to \<open>2 ^ 53\<close> can be taken iff its load is below its capacity.
\<close>

theorem getLeastLoadedServer_least_float_load:
  assumes keys: "set keys = dom reg"
  shows "(getLeastLoadedServer reg keys = None) = (\<forall>s\<in>ran reg. \<not> selectable s) \<and>
         (\<forall>b. getLeastLoadedServer reg keys = Some b \<longrightarrow>
            b \<in> ran reg \<and> selectable b \<and>
            (0 < Capacity b \<longrightarrow> CurrentLoad b < Capacity b) \<and>
            (\<forall>s\<in>ran reg. Status s = ''active'' \<longrightarrow>
               \<not> f64_less (load s) (load b) \<and>
               (exactly_converted s \<and> exactly_converted b \<and> ratio s \<le> ratio b \<longrightarrow> load s = load b))) \<and>
         (\<forall>s\<in>ran reg. Status s = ''active'' \<longrightarrow> 0 < Capacity s \<longrightarrow> Capacity s \<le> 2 ^ 53 \<longrightarrow>
            selectable s = (CurrentLoad s < Capacity s))"
proof (intro conjI allI impI ballI)
  show "(getLeastLoadedServer reg keys = None) = (\<forall>s\<in>ran reg. \<not> selectable s)"
    using getLeastLoadedServer_spec [OF keys]
    by (cases "getLeastLoadedServer reg keys") auto
next
  fix b
  assume b: "getLeastLoadedServer reg keys = Some b"
  with getLeastLoadedServer_spec [OF keys]
  show "b \<in> ran reg" and sel: "selectable b"
    and least: "\<And>s. s \<in> ran reg \<Longrightarrow> Status s = ''active'' \<Longrightarrow> \<not> f64_less (load s) (load b)"
    by simp_all
  show "CurrentLoad b < Capacity b" if "0 < Capacity b"
    using sel that by (rule selectable_below_capacity)
  show "load s = load b"
    if "s \<in> ran reg" "Status s = ''active''" "exactly_converted s \<and> exactly_converted b \<and> ratio s \<le> ratio b" for s
    using that least [of s] by (intro load_same) simp_all
next
  fix s :: StreamingServer
  assume "Status s = ''active''" "0 < Capacity s" "Capacity s \<le> 2 ^ 53"
  then show "selectable s = (CurrentLoad s < Capacity s)"
    using selectable_below_capacity [of s] below_capacity_selectable [of s] by blast
qed

lemma sample_loads:
  "load srvA = Fin (3602879701896397 / 9007199254740992)"
  "load srvB = Fin (3602879701896397 / 36028797018963968)"
  "load srvF = Fin 1"
  "load srvG = Fin 1"
  "load srvP = Fin (9007199164668999 / 9007199254740992)"
  "load srvQ = Fin (9007199164668999 / 9007199254740992)"
  by code_simp+

lemma sample_selection:
  "getLeastLoadedServer [''a'' \<mapsto> srvA, ''b'' \<mapsto> srvB, ''c'' \<mapsto> srvC] [''c'', ''a'', ''b''] = Some srvB"
  by code_simp

theorem getLeastLoadedServer_least_float_load_witness:
  "getLeastLoadedServer [''a'' \<mapsto> srvA, ''b'' \<mapsto> srvB, ''c'' \<mapsto> srvC] [''c'', ''a'', ''b''] = Some srvB
   \<and> selectable srvB \<and> CurrentLoad srvB < Capacity srvB
   \<and> \<not> f64_less (load srvA) (load srvB)"
proof -
  let ?reg = "[''a'' \<mapsto> srvA, ''b'' \<mapsto> srvB, ''c'' \<mapsto> srvC]"
  let ?keys = "[''c'', ''a'', ''b'']"
  have k: "set ?keys = dom ?reg"
    by auto
  have "?reg ''a'' = Some srvA"
    by simp
  then have a: "srvA \<in> ran ?reg"
    by (rule ranI)
  have b: "Status srvA = ''active''" "0 < Capacity srvB"
    by (simp_all add: srvA_def srvB_def)
  from getLeastLoadedServer_least_float_load [OF k] sample_selection a b show ?thesis
    by blast
qed

text \<open>
  Claim C6, as stated, fails. Of two active entries below their capacities the one
  visited first is returned although the ratio of the other is lower, because the two
  quotients are the same \<^verbatim>\<open>float64\<close>; and the only entry of a registry, active and below
  its capacity, is not returned, because its quotient is \<^verbatim>\<open>1.0\<close>.
\<close>

theorem getLeastLoadedServer_rounding_counterexample:
  "getLeastLoadedServer [''p'' \<mapsto> srvP, ''q'' \<mapsto> srvQ] [''p'', ''q''] = Some srvP \<and>
   Status srvQ = ''active'' \<and> CurrentLoad srvQ < Capacity srvQ \<and> ratio srvQ < ratio srvP \<and>
   load srvQ = load srvP \<and>
   getLeastLoadedServer [''g'' \<mapsto> srvG] [''g''] = None \<and>
   Status srvG = ''active'' \<and> CurrentLoad srvG < Capacity srvG \<and> load srvG = Fin 1"
proof -
  have "getLeastLoadedServer [''p'' \<mapsto> srvP, ''q'' \<mapsto> srvQ] [''p'', ''q''] = Some srvP"
    by code_simp
  moreover have "getLeastLoadedServer [''g'' \<mapsto> srvG] [''g''] = None"
    by code_simp
  moreover have "ratio srvQ < ratio srvP"
    by (simp add: ratio_def srvP_def srvQ_def)
  moreover have "load srvQ = load srvP" "load srvG = Fin 1"
    by (simp_all add: sample_loads)
  ultimately show ?thesis
    by (simp add: srvQ_def srvG_def)
qed

subsection \<open>Registering and heartbeats\<close>

lemma registerStreamingServer_entry:
  "registerStreamingServer (Some d) now1 now2 reg =
     (\<lparr>status = 200, body = NoBody\<rparr>,
      reg(ID d \<mapsto> d\<lparr>Registered := now1, LastPing := Unix now2\<rparr>))"
  by (simp add: registerStreamingServer_def Let_def)

lemma registerStreamingServer_status:
  "map_option Status (snd (registerStreamingServer (Some d) now1 now2 reg) (ID d)) = Some (Status d)"
  by (simp add: registerStreamingServer_entry)

lemma handleHeartbeat_known:
  "reg (ID d) = Some e \<Longrightarrow>
   handleHeartbeat (Some d) now reg =
     (\<lparr>status = 200, body = NoBody\<rparr>,
      reg(ID d \<mapsto> e\<lparr>CurrentLoad := CurrentLoad d, LastPing := Unix now, Status := ''active''\<rparr>))"
  by (simp add: handleHeartbeat_def)

lemma handleHeartbeat_unknown:
  "reg (ID d) = None \<Longrightarrow> handleHeartbeat (Some d) now reg = (\<lparr>status = 200, body = NoBody\<rparr>, reg)"
  by (simp add: handleHeartbeat_def)

text \<open>
  Claim C7. The claim says that a register request stores its entry with the status
  active whatever status the descriptor carries. \<open>registerStreamingServer\<close> stores the
  status of the descriptor: registering the descriptor \<open>srvC\<close>, whose status is
  \<open>inactive\<close>, answers 200 and leaves an entry whose status is \<open>inactive\<close>. (What the
  claim says of heartbeats holds: \<open>handleHeartbeat_known\<close>, \<open>handleHeartbeat_unknown\<close>.)
\<close>

theorem registerStreamingServer_keeps_descriptor_status:
  "fst (registerStreamingServer (Some srvC) 1700000000123456789 1700000000123456790 Map.empty)
     = \<lparr>status = 200, body = NoBody\<rparr> \<and>
   snd (registerStreamingServer (Some srvC) 1700000000123456789 1700000000123456790 Map.empty) ''c''
     = Some (srvC\<lparr>Registered := 1700000000123456789, LastPing := 1700000000\<rparr>) \<and>
   Status (srvC\<lparr>Registered := 1700000000123456789, LastPing := 1700000000\<rparr>) = ''inactive''"
  by (simp add: registerStreamingServer_def Let_def srvC_def Unix_def)

subsection \<open>Creating a session\<close>

lemma rdb_SetEX_ok: "faults r = False # fs \<Longrightarrow>
   rdb_SetEX key v r = (False, r\<lparr>kv := (kv r)(key \<mapsto> v), faults := fs\<rparr>)"
  by (simp add: rdb_SetEX_def next_fault_def)

lemma rdb_SetEX_fail: "faults r = True # fs \<Longrightarrow> rdb_SetEX key v r = (True, r\<lparr>faults := fs\<rparr>)"
  by (simp add: rdb_SetEX_def next_fault_def)

lemma rdb_SetEX_nofault: "faults r = [] \<Longrightarrow>
   rdb_SetEX key v r = (False, r\<lparr>kv := (kv r)(key \<mapsto> v)\<rparr>)"
  by (simp add: rdb_SetEX_def next_fault_def)

lemma createSession_success:
  assumes "faults r = []"
  shows "createSession marshal sessionKey hostToken now r =
     (respondJSON 200 [(''hostToken'', JString hostToken), (''sessionKey'', JString sessionKey)],
      r\<lparr>kv := apply_writes (session_writes marshal sessionKey hostToken now) (kv r)\<rparr>)"
  using assms
  by (simp add: createSession_def rdb_SetEX_nofault session_writes_def Let_def)

text \<open>
  Claim C4. The claim says that the timestamp of the initial state is the creation time
  in milliseconds since the epoch. \<open>createSession\<close> stores \<^verbatim>\<open>time.Now().Unix()\<close>, the
  creation time in seconds: a session created at the instant 1700000000123456789 (in
  nanoseconds) gets the timestamp 1700000000, while the instant in milliseconds is
  1700000000123. The rest of the claim holds: \<open>createSession_success\<close>.
\<close>

theorem createSession_timestamp_in_seconds:
  "kv (snd (createSession marshal ''k'' ''h'' 1700000000123456789
        \<lparr>kv = Map.empty, published = [], faults = []\<rparr>)) ''session:k:state'' =
     Some (marshal \<lparr>Paused = True, CurrentTime = 0, PlaybackRate = 1, Timestamp = 1700000000\<rparr>)
   \<and> UnixMilli 1700000000123456789 = 1700000000123"
  by (simp add: createSession_success session_writes_def Unix_def UnixMilli_def)

text \<open>
  Claim C5, as amended. When the write number \<open>n\<close> (counted from 0) of the three writes
  of \<open>createSession\<close> is the first that fails, the call answers 500 with the text
  \<^verbatim>\<open>Failed to create session\<close> at once: the \<open>n\<close> writes before it stay in the keyspace,
  nothing is rolled back, and no further write is attempted.
\<close>

theorem createSession_write_failure:
  assumes n: "n < 3" and f: "faults r = replicate n False @ True # fs"
  shows "createSession marshal sessionKey hostToken now r =
           (http_Error ''Failed to create session'' 500,
            r\<lparr>kv := apply_writes (take n (session_writes marshal sessionKey hostToken now)) (kv r),
              faults := fs\<rparr>)"
proof -
  from n consider "n = 0" | "n = 1" | "n = 2" by linarith
  then show ?thesis
  proof cases
    case 1
    with f show ?thesis
      by (simp add: createSession_def rdb_SetEX_fail)
  next
    case 2
    with f show ?thesis
      by (simp add: createSession_def rdb_SetEX_ok rdb_SetEX_fail session_writes_def)
  next
    case 3
    with f have "faults r = False # False # True # fs" by (simp add: numeral_2_eq_2)
    then show ?thesis using 3
      by (simp add: createSession_def rdb_SetEX_ok rdb_SetEX_fail session_writes_def Let_def
          numeral_2_eq_2)
  qed
qed

theorem createSession_write_failure_witness:
  "createSession sample_marshal ''k'' ''h'' 0
      \<lparr>kv = Map.empty, published = [], faults = [False, False, True]\<rparr> =
     (http_Error ''Failed to create session'' 500,
      \<lparr>kv = [''session:k'' \<mapsto> ''active'', ''session:k:host'' \<mapsto> ''h''],
       published = [], faults = []\<rparr>)"
  using createSession_write_failure[of 2 "\<lparr>kv = Map.empty, published = [], faults = [False, False, True]\<rparr>" "[]"
      sample_marshal "''k''" "''h''" 0]
  by (simp add: session_writes_def numeral_2_eq_2)

text \<open>
  Claim C5, as stated, fails: when the first write succeeds and the second fails, the
  call answers 500 and the existence sentinel written first is still in the keyspace.
\<close>

theorem createSession_no_rollback_counterexample:
  "status (fst (createSession sample_marshal ''k'' ''h'' 0
      \<lparr>kv = Map.empty, published = [], faults = [False, True]\<rparr>)) = 500 \<and>
   kv (snd (createSession sample_marshal ''k'' ''h'' 0
      \<lparr>kv = Map.empty, published = [], faults = [False, True]\<rparr>)) ''session:k'' = Some ''active''"
  by (simp add: createSession_def rdb_SetEX_def next_fault_def http_Error_def)

subsection \<open>Validating a session\<close>

lemma pathSessionKey_route:
  assumes "CHR ''?'' \<notin> set k"
  shows "pathSessionKey (''/api/sessions/'' @ k @ ''/validate'') = Some k"
proof -
  have "takeWhile (\<lambda>c. c \<noteq> CHR ''?'') (k @ ''/validate'') = k @ ''/validate''"
    using assms by (auto simp: takeWhile_eq_all_conv)
  then show ?thesis by (simp add: pathSessionKey_def Let_def)
qed


lemma rdb_Get_nofault:
  "faults r = [] \<Longrightarrow>
   rdb_Get key r = ((case kv r key of None \<Rightarrow> RedisNil | Some v \<Rightarrow> Value v), r)"
  by (simp add: rdb_Get_def next_fault_def)



lemma validateSession_short_key_panics:
  "recovered (validateSession ''/api/sessions/a?b/validate'' [] keys reg r) =
     (http_Error ''Internal Server Error'' 500, r)"
  by (simp add: validateSession_def pathSessionKey_def recovered_def)

lemma validateSession_keyspace_error:
  assumes "pathSessionKey path = Some k" "faults r = True # fs"
  shows "validateSession path t keys reg r =
    (Some (respondError 500 ''internal_server_error''), r\<lparr>faults := fs\<rparr>)"
  using assms by (simp add: validateSession_def rdb_Exists_def next_fault_def)





section \<open>Properties of the streaming node\<close>

subsection \<open>The load counter and the subscriptions\<close>

lemma liveConnections_total: "liveConnections s = total (clients s)"
  by (simp add: liveConnections_def total_def)

lemma total_split:
  assumes "finite (dom m)"
  shows "total m = (case m a of None \<Rightarrow> 0 | Some old \<Rightarrow> length old)
                    + (\<Sum>k\<in>dom m - {a}. length (the (m k)))"
proof (cases "m a")
  case None
  then have "dom m - {a} = dom m" by auto
  with None show ?thesis by (simp add: total_def)
next
  case (Some old)
  then have "a \<in> dom m" by auto
  from sum.remove[OF assms this, of "\<lambda>k. length (the (m k))"] Some
  show ?thesis by (simp add: total_def)
qed

lemma total_upd:
  assumes "finite (dom m)"
  shows "total (m(a \<mapsto> v)) + (case m a of None \<Rightarrow> 0 | Some old \<Rightarrow> length old)
           = total m + length v"
proof -
  have fin: "finite (dom (m(a \<mapsto> v)))" using assms by simp
  have "dom (m(a \<mapsto> v)) - {a} = dom m - {a}" by auto
  moreover have "(\<Sum>k\<in>dom m - {a}. length (the ((m(a \<mapsto> v)) k)))
                  = (\<Sum>k\<in>dom m - {a}. length (the (m k)))"
    by (rule sum.cong) auto
  ultimately have "total (m(a \<mapsto> v)) = length v + (\<Sum>k\<in>dom m - {a}. length (the (m k)))"
    using total_split[OF fin, of a] by simp
  with total_split[OF assms, of a] show ?thesis by simp
qed

lemma node_inv_init: "node_inv {} (init_node r)"
  by (simp add: node_inv_def init_node_def liveConnections_def)

lemma node_inv_log [simp]: "node_inv L (log_line l s) = node_inv L s"
  by (simp add: node_inv_def log_line_def liveConnections_def)

lemma node_inv_rdb [simp]: "node_inv L (s\<lparr>rdb := r\<rparr>) = node_inv L s"
  by (simp add: node_inv_def liveConnections_def)

lemma node_inv_inLoop [simp]: "node_inv L (s\<lparr>inLoop := X\<rparr>) = node_inv L s"
  by (simp add: node_inv_def liveConnections_def)

lemma cleanupClient_inv:
  assumes inv: "node_inv L s" and p: "p \<in> L"
  shows "\<exists>s'. cleanupClient (Some p) s = Done s' \<and> node_inv (L - {p}) s'
           \<and> subscriptions s' = subscriptions s \<and> inLoop s' = inLoop s"
proof -
  let ?c = "heap s ! p"
  let ?sid = "sessionID ?c"
  from inv p obtain ch cs where
    plen: "p < length (heap s)" and sid: "?sid \<noteq> []" and
    ch: "send ?c = Some ch" "\<not> closed ch" and
    cs: "clients s ?sid = Some cs" "Some p \<in> set cs"
    unfolding node_inv_def by blast
  from inv have fin: "finite (dom (clients s))"
    and num: "numClients s = int (total (clients s))"
    and buckets: "\<And>sid cs. clients s sid = Some cs \<Longrightarrow>
        distinct cs \<and> (\<forall>e\<in>set cs. \<exists>q\<in>L. e = Some q \<and> sessionID (heap s ! q) = sid)"
    and live: "\<And>q. q \<in> L \<Longrightarrow> q < length (heap s) \<and> sessionID (heap s ! q) \<noteq> [] \<and>
        (\<exists>ch. send (heap s ! q) = Some ch \<and> \<not> closed ch) \<and>
        (\<exists>cs. clients s (sessionID (heap s ! q)) = Some cs \<and> Some q \<in> set cs)"
    unfolding node_inv_def liveConnections_total by blast+
  define h' where "h' = (heap s)[p := ?c\<lparr>send := Some (ch\<lparr>closed := True\<rparr>)\<rparr>]"
  define s' where "s' = s\<lparr>heap := h', client_lock := insert ?sid (client_lock s),
      socket_ops := (case conn ?c of None \<Rightarrow> socket_ops s | Some h \<Rightarrow> socket_ops s @ [Close h]),
      clients := (clients s)(?sid \<mapsto> remove1 (Some p) cs),
      numClients := numClients s - 1\<rparr>"
  have ne: "cs \<noteq> []" using cs by auto
  have run: "cleanupClient (Some p) s = Done s'"
    using sid ch cs ne
    by (cases "conn ?c") (simp_all add: cleanupClient_def chan_close_def Let_def s'_def h'_def)
  have hq: "q \<noteq> p \<Longrightarrow> h' ! q = heap s ! q" for q by (simp add: h'_def)
  have hsid: "q < length (heap s) \<Longrightarrow> sessionID (h' ! q) = sessionID (heap s ! q)" for q
    by (cases "q = p") (simp_all add: h'_def)
  have dcs: "distinct cs" using buckets[OF cs(1)] by simp
  have tot: "total (clients s') + 1 = total (clients s)"
  proof -
    from total_upd[OF fin, of ?sid "remove1 (Some p) cs"] cs
    have "total ((clients s)(?sid \<mapsto> remove1 (Some p) cs)) + length cs
            = total (clients s) + length (remove1 (Some p) cs)" by simp
    moreover have "length (remove1 (Some p) cs) + 1 = length cs"
      using cs(2) ne by (simp add: length_remove1)
    ultimately show ?thesis by (simp add: s'_def)
  qed
  have "node_inv (L - {p}) s'"
    unfolding node_inv_def liveConnections_total
  proof (intro conjI allI impI ballI)
    show "finite (dom (clients s'))" using fin by (simp add: s'_def)
  next
    fix sid' cs' assume b: "clients s' sid' = Some cs'"
    show "distinct cs'"
      using b buckets dcs by (auto simp: s'_def split: if_splits)
  next
    fix sid' cs' e assume b: "clients s' sid' = Some cs'" and e: "e \<in> set cs'"
    show "\<exists>q\<in>L - {p}. e = Some q \<and> sessionID (heap s' ! q) = sid'"
    proof (cases "sid' = ?sid")
      case True
      with b have "cs' = remove1 (Some p) cs" by (simp add: s'_def)
      with e dcs have e': "e \<in> set cs" "e \<noteq> Some p" by auto
      from buckets[OF cs(1)] e' obtain q where q: "q \<in> L" "e = Some q" "sessionID (heap s ! q) = ?sid"
        by blast
      with e' have "q \<noteq> p" by auto
      with q True live[OF q(1)] show ?thesis by (auto simp: s'_def hsid)
    next
      case False
      with b have old: "clients s sid' = Some cs'" by (simp add: s'_def)
      from buckets[OF old] e obtain q where q: "q \<in> L" "e = Some q" "sessionID (heap s ! q) = sid'"
        by blast
      with False have "q \<noteq> p" by auto
      with q live[OF q(1)] show ?thesis by (auto simp: s'_def hsid)
    qed
  next
    fix q assume q: "q \<in> L - {p}"
    then have qL: "q \<in> L" and qp: "q \<noteq> p" by auto
    from live[OF qL] show "q < length (heap s')" by (simp add: s'_def h'_def)
    from live[OF qL] qp show "sessionID (heap s' ! q) \<noteq> []" by (simp add: s'_def hq)
    from live[OF qL] qp show "\<exists>ch. send (heap s' ! q) = Some ch \<and> \<not> closed ch"
      by (simp add: s'_def hq)
    from live[OF qL] obtain cq where cq: "clients s (sessionID (heap s ! q)) = Some cq" "Some q \<in> set cq"
      by blast
    show "\<exists>cs. clients s' (sessionID (heap s' ! q)) = Some cs \<and> Some q \<in> set cs"
    proof (cases "sessionID (heap s ! q) = ?sid")
      case True
      with cq cs have "cq = cs" by simp
      with cq qp True show ?thesis by (auto simp: s'_def hq)
    next
      case False
      with cq qp show ?thesis by (auto simp: s'_def hq)
    qed
  next
    from tot num have "total (clients s) \<ge> 1" by simp
    with tot num show "numClients s' = int (total (clients s'))"
      by (simp add: s'_def)
  qed
  moreover have "subscriptions s' = subscriptions s" "inLoop s' = inLoop s"
    by (simp_all add: s'_def)
  ultimately show ?thesis using run by blast
qed

lemma registered_inv:
  assumes inv: "node_inv L s" and sid: "sid \<noteq> []"
  shows "node_inv (insert (length (heap s)) L) (registered sid host h s)"
proof -
  let ?p = "length (heap s)"
  let ?old = "case clients s sid of None \<Rightarrow> [] | Some cs \<Rightarrow> cs"
  let ?s' = "registered sid host h s"
  from inv have fin: "finite (dom (clients s))"
    and num: "numClients s = int (total (clients s))"
    and buckets: "\<And>sid cs. clients s sid = Some cs \<Longrightarrow>
        distinct cs \<and> (\<forall>e\<in>set cs. \<exists>q\<in>L. e = Some q \<and> sessionID (heap s ! q) = sid)"
    and live: "\<And>q. q \<in> L \<Longrightarrow> q < length (heap s) \<and> sessionID (heap s ! q) \<noteq> [] \<and>
        (\<exists>ch. send (heap s ! q) = Some ch \<and> \<not> closed ch) \<and>
        (\<exists>cs. clients s (sessionID (heap s ! q)) = Some cs \<and> Some q \<in> set cs)"
    unfolding node_inv_def liveConnections_total by blast+
  have pL: "?p \<notin> L" using live by auto
  have heap': "heap ?s' = heap s @ [\<lparr>conn = Some h, sessionID = sid, isHost = host,
                                send = Some (make_chan 256)\<rparr>]"
    and clients': "clients ?s' = (clients s)(sid \<mapsto> ?old @ [Some ?p])"
    and num': "numClients ?s' = numClients s + 1"
    by (simp_all add: registered_def subscribeToSessionUpdates_def)
  have hq: "q < ?p \<Longrightarrow> heap ?s' ! q = heap s ! q" for q
    by (simp add: heap' nth_append)
  have hp: "heap ?s' ! ?p = \<lparr>conn = Some h, sessionID = sid, isHost = host,
                                send = Some (make_chan 256)\<rparr>"
    by (simp add: heap')
  have old: "distinct ?old \<and> (\<forall>e\<in>set ?old. \<exists>q\<in>L. e = Some q \<and> sessionID (heap s ! q) = sid)"
    using buckets by (cases "clients s sid") auto
  have pold: "Some ?p \<notin> set ?old" using old pL by auto
  have tot: "total (clients ?s') = total (clients s) + 1"
  proof -
    have "(case clients s sid of None \<Rightarrow> 0 | Some old \<Rightarrow> length old) = length ?old"
      by (cases "clients s sid") auto
    with total_upd[OF fin, of sid "?old @ [Some ?p]"] show ?thesis
      by (simp add: clients')
  qed
  show ?thesis
    unfolding node_inv_def liveConnections_total
  proof (intro conjI allI impI ballI)
    show "finite (dom (clients ?s'))" using fin by (simp add: clients')
  next
    fix sid' cs' assume b: "clients ?s' sid' = Some cs'"
    show "distinct cs'"
      using b buckets old pold by (auto simp: clients' split: if_splits)
  next
    fix sid' cs' e assume b: "clients ?s' sid' = Some cs'" and e: "e \<in> set cs'"
    show "\<exists>q\<in>insert ?p L. e = Some q \<and> sessionID (heap ?s' ! q) = sid'"
    proof (cases "sid' = sid")
      case True
      with b have cs': "cs' = ?old @ [Some ?p]" by (simp add: clients')
      show ?thesis
      proof (cases "e = Some ?p")
        case True
        with \<open>sid' = sid\<close> hp show ?thesis by auto
      next
        case False
        with e cs' have "e \<in> set ?old" by auto
        with old obtain q where q: "q \<in> L" "e = Some q" "sessionID (heap s ! q) = sid" by blast
        with live[OF q(1)] True show ?thesis by (auto simp: hq)
      qed
    next
      case False
      with b have "clients s sid' = Some cs'" by (simp add: clients')
      from buckets[OF this] e obtain q where q: "q \<in> L" "e = Some q" "sessionID (heap s ! q) = sid'"
        by blast
      with live[OF q(1)] show ?thesis by (auto simp: hq)
    qed
  next
    fix q assume q: "q \<in> insert ?p L"
    show "q < length (heap ?s')" using q live by (fastforce simp: heap' less_Suc_eq)
    show "sessionID (heap ?s' ! q) \<noteq> []"
      using q live sid by (cases "q = ?p") (auto simp: hp hq)
    show "\<exists>ch. send (heap ?s' ! q) = Some ch \<and> \<not> closed ch"
      using q live by (cases "q = ?p") (auto simp: hp hq make_chan_def)
    show "\<exists>cs. clients ?s' (sessionID (heap ?s' ! q)) = Some cs \<and> Some q \<in> set cs"
    proof (cases "q = ?p")
      case True
      then show ?thesis by (simp add: hp clients')
    next
      case False
      with q have qL: "q \<in> L" by simp
      from live[OF qL] obtain cq where cq: "q < ?p" "clients s (sessionID (heap s ! q)) = Some cq"
        "Some q \<in> set cq" by blast
      then show ?thesis by (cases "sessionID (heap s ! q) = sid") (auto simp: hq clients')
    qed
  next
    show "numClients ?s' = int (total (clients ?s'))"
      using tot num num' by simp
  qed
qed

lemma registered_fields:
  "subscriptions (registered sid host h s) = subscriptions s @ [''session-updates:'' @ sid]"
  "inLoop (registered sid host h s) = inLoop s"
  "heap (registered sid host h s) ! length (heap s) =
     \<lparr>conn = Some h, sessionID = sid, isHost = host, send = Some (make_chan 256)\<rparr>"
  "rdb (registered sid host h s) = rdb s"
  by (simp_all add: registered_def subscribeToSessionUpdates_def)

lemma handleWebSocket_registered:
  "sid \<noteq> [] \<Longrightarrow> handleWebSocket J sid ih (Some h) now s =
     (if ih \<noteq> ''true'' then sendInitialState J (length (heap s)) now (registered sid False h s)
      else Done (None, (registered sid True h s)\<lparr>inLoop := insert (length (heap s)) (inLoop s)\<rparr>))"
  by (simp add: handleWebSocket_def registered_def Let_def subscribeToSessionUpdates_def)

lemma node_inv_send:
  assumes inv: "node_inv L s" and ch: "\<not> closed ch"
  shows "node_inv L (s\<lparr>heap := (heap s)[p := (heap s ! p)\<lparr>send := Some ch\<rparr>]\<rparr>)"
proof -
  have sid: "q < length (heap s) \<Longrightarrow>
      sessionID ((heap s)[p := (heap s ! p)\<lparr>send := Some ch\<rparr>] ! q) = sessionID (heap s ! q)" for q
    by (cases "q = p") simp_all
  have snd: "q < length (heap s) \<Longrightarrow> \<exists>c. send (heap s ! q) = Some c \<and> \<not> closed c \<Longrightarrow>
      \<exists>c. send ((heap s)[p := (heap s ! p)\<lparr>send := Some ch\<rparr>] ! q) = Some c \<and> \<not> closed c" for q
    using ch by (cases "q = p") simp_all
  from inv show ?thesis
    unfolding node_inv_def liveConnections_def
    by (simp add: sid snd)
qed

lemma select_send_open:
  assumes "send c = Some ch" "\<not> closed ch"
  shows "\<exists>ch' sent. select_send (send c) v = Done (Some ch', sent) \<and> \<not> closed ch'
           \<and> (\<not> sent \<longrightarrow> ch' = ch)"
  using assms by (cases "length (buf ch) < cap ch") (auto simp: select_send_def)

lemma log_line_fields [simp]:
  "subscriptions (log_line l s) = subscriptions s"
  "inLoop (log_line l s) = inLoop s"
  "heap (log_line l s) = heap s"
  "clients (log_line l s) = clients s"
  "numClients (log_line l s) = numClients s"
  "rdb (log_line l s) = rdb s"
  by (simp_all add: log_line_def)

lemma sendInitialState_inv:
  assumes inv: "node_inv (insert p (inLoop s)) s" and p: "p \<notin> inLoop s"
  shows "\<exists>resp s'. sendInitialState J p now s = Done (resp, s') \<and> node_inv (inLoop s') s'
           \<and> subscriptions s' = subscriptions s"
proof -
  let ?client = "heap s ! p"
  obtain res r1 where get: "rdb_Get (''session:'' @ sessionID ?client @ '':state'') (rdb s) = (res, r1)"
    by (cases "rdb_Get (''session:'' @ sessionID ?client @ '':state'') (rdb s)")
  define s1 where "s1 = (case res of
                    RedisNil \<Rightarrow> log_line (''Invalid Session key '' @ sessionID ?client) (s\<lparr>rdb := r1\<rparr>)
                  | RedisErr \<Rightarrow> log_line ''Error Synchronizing'' (s\<lparr>rdb := r1\<rparr>)
                  | Value _ \<Rightarrow> s\<lparr>rdb := r1\<rparr>)"
  have s1_inv: "node_inv (insert p (inLoop s)) s1"
    by (cases res) (simp_all add: s1_def inv)
  have s1_fields: "subscriptions s1 = subscriptions s" "inLoop s1 = inLoop s" "heap s1 = heap s"
    by (cases res; simp add: s1_def)+
  note s1 = s1_inv s1_fields
  have cleanup: "\<exists>s'. cleanupClient (Some p) (log_line l s1) = Done s' \<and> node_inv (inLoop s') s'
      \<and> subscriptions s' = subscriptions s" for l
  proof -
    have "node_inv (insert p (inLoop s)) (log_line l s1)" using s1 by simp
    from cleanupClient_inv[OF this, of p] obtain s' where
      "cleanupClient (Some p) (log_line l s1) = Done s'" "node_inv (insert p (inLoop s) - {p}) s'"
      "subscriptions s' = subscriptions (log_line l s1)" "inLoop s' = inLoop (log_line l s1)"
      by auto
    moreover have "insert p (inLoop s) - {p} = inLoop s" using p by auto
    ultimately show ?thesis using s1 by (auto simp: log_line_def)
  qed
  from inv obtain ch where ch: "send ?client = Some ch" "\<not> closed ch"
    unfolding node_inv_def by blast
  show ?thesis
  proof (cases "unmarshal_raw J (get_val res)")
    case None
    from cleanup[of "''Error unmarshaling state:''"] obtain s' where
      "cleanupClient (Some p) (log_line ''Error unmarshaling state:'' s1) = Done s'"
      "node_inv (inLoop s') s'" "subscriptions s' = subscriptions s" by blast
    with None get show ?thesis
      by (simp add: sendInitialState_def Let_def s1_def)
  next
    case (Some state)
    show ?thesis
    proof (cases "marshalRaw J state")
      case None
      from cleanup[of "''Error marshaling state:''"] obtain s' where
        "cleanupClient (Some p) (log_line ''Error marshaling state:'' s1) = Done s'"
        "node_inv (inLoop s') s'" "subscriptions s' = subscriptions s" by blast
      with None Some get show ?thesis
        by (simp add: sendInitialState_def Let_def s1_def)
    next
      case st: (Some st)
      from select_send_open[OF ch, of "StateUpdate st (UnixMilli now)"] obtain ch' sent where
        snd: "select_send (send ?client) (StateUpdate st (UnixMilli now)) = Done (Some ch', sent)"
          "\<not> closed ch'" by blast
      show ?thesis
      proof (cases sent)
        case True
        have "node_inv (insert p (inLoop s)) (s1\<lparr>heap := (heap s1)[p := (heap s1 ! p)\<lparr>send := Some ch'\<rparr>]\<rparr>)"
          using node_inv_send[OF s1(1) snd(2)] .
        then have "node_inv (insert p (inLoop s))
            (s1\<lparr>heap := (heap s1)[p := ?client\<lparr>send := Some ch'\<rparr>], inLoop := insert p (inLoop s1)\<rparr>)"
          using s1 by simp
        with True snd st Some get s1 show ?thesis
          by (simp add: sendInitialState_def Let_def s1_def[symmetric])
      next
        case False
        have "node_inv (insert p (inLoop s))
            ((log_line (drop_line (sessionID ?client)) s1)\<lparr>inLoop := insert p (inLoop s1)\<rparr>)"
          using s1 by simp
        with False snd st Some get s1 show ?thesis
          by (simp add: sendInitialState_def Let_def s1_def[symmetric] log_line_def)
      qed
    qed
  qed
qed

lemma handleWebSocket_inv:
  assumes inv: "node_inv (inLoop s) s"
  shows "\<exists>resp s'. handleWebSocket J sid ih up now s = Done (resp, s') \<and> node_inv (inLoop s') s'
           \<and> subscriptions s' = subscriptions s @ subs_of (Connect sid ih up now)"
proof (cases "sid = []")
  case True
  with inv show ?thesis by (simp add: handleWebSocket_def)
next
  case sid: False
  show ?thesis
  proof (cases up)
    case None
    with inv sid show ?thesis by (simp add: handleWebSocket_def)
  next
    case (Some h)
    let ?p = "length (heap s)"
    have pL: "?p \<notin> inLoop s" using inv unfolding node_inv_def by auto
    show ?thesis
    proof (cases "ih = ''true''")
      case True
      from registered_inv[OF inv sid, of True h]
      have "node_inv (insert ?p (inLoop s)) (registered sid True h s)" .
      with True Some sid show ?thesis
        by (simp add: handleWebSocket_registered registered_fields)
    next
      case False
      let ?s4 = "registered sid False h s"
      from registered_inv[OF inv sid, of False h]
      have "node_inv (insert ?p (inLoop ?s4)) ?s4" by (simp add: registered_fields)
      moreover have "?p \<notin> inLoop ?s4" using pL by (simp add: registered_fields)
      ultimately obtain resp s' where
        "sendInitialState J ?p now ?s4 = Done (resp, s')" "node_inv (inLoop s') s'"
        "subscriptions s' = subscriptions ?s4"
        using sendInitialState_inv by blast
      with False Some sid show ?thesis
        by (simp add: handleWebSocket_registered registered_fields)
    qed
  qed
qed

lemma step_inv:
  assumes inv: "node_inv (inLoop s) s"
  shows "\<exists>s'. step J e s = Done s' \<and> node_inv (inLoop s') s'
           \<and> subscriptions s' = subscriptions s @ subs_of e"
proof (cases e)
  case (Connect sid ih up now)
  from handleWebSocket_inv[OF inv, of J sid ih up now] Connect show ?thesis by auto
next
  case (Disconnect p)
  show ?thesis
  proof (cases "p \<in> inLoop s")
    case True
    let ?s0 = "log_line ''Error reading message:'' (s\<lparr>inLoop := inLoop s - {p}\<rparr>)"
    have "node_inv (inLoop s) ?s0" using inv by simp
    from cleanupClient_inv[OF this True] obtain s' where
      "cleanupClient (Some p) ?s0 = Done s'" "node_inv (inLoop s - {p}) s'"
      "subscriptions s' = subscriptions ?s0" "inLoop s' = inLoop ?s0" by blast
    with True Disconnect show ?thesis by (simp add: log_line_def)
  next
    case False
    with Disconnect inv show ?thesis by simp
  qed
qed

lemma run_inv:
  assumes "node_inv (inLoop s) s"
  shows "\<exists>s'. run J evs s = Done s' \<and> node_inv (inLoop s') s'
           \<and> subscriptions s' = subscriptions s @ concat (map subs_of evs)"
  using assms
proof (induction evs arbitrary: s)
  case Nil
  then show ?case by simp
next
  case (Cons e evs)
  from step_inv[OF Cons.prems, of J e] obtain s1 where
    s1: "step J e s = Done s1" "node_inv (inLoop s1) s1"
      "subscriptions s1 = subscriptions s @ subs_of e" by blast
  from Cons.IH[OF s1(2)] obtain s' where
    "run J evs s1 = Done s'" "node_inv (inLoop s') s'"
    "subscriptions s' = subscriptions s1 @ concat (map subs_of evs)" by blast
  with s1 show ?case by simp
qed

lemma count_subs_of_event:
  "count_list (subs_of e) (''session-updates:'' @ k) = (if accepted k e then 1 else 0)"
proof (cases e)
  case (Connect sid ih up now)
  have "(''session-updates:'' @ sid = ''session-updates:'' @ k) = (sid = k)" by simp
  then show ?thesis unfolding Connect by (cases "sid = k") auto
next
  case (Disconnect p)
  then show ?thesis by simp
qed

lemma count_subs_of:
  "count_list (concat (map subs_of evs)) (''session-updates:'' @ k) = length (filter (accepted k) evs)"
proof (induction evs)
  case Nil
  show ?case by simp
next
  case (Cons e evs)
  have "count_list (concat (map subs_of (e # evs))) (''session-updates:'' @ k)
      = count_list (subs_of e) (''session-updates:'' @ k)
        + count_list (concat (map subs_of evs)) (''session-updates:'' @ k)"
    by (simp only: list.map concat.simps count_list_append)
  also have "\<dots> = (if accepted k e then 1 else 0) + length (filter (accepted k) evs)"
    by (simp only: count_subs_of_event Cons.IH)
  also have "\<dots> = length (filter (accepted k) (e # evs))" by simp
  finally show ?case .
qed

text \<open>
  The handlers of client messages and of topic messages leave the buckets, the load
  counter and the subscriptions as they are.
\<close>

lemma hostStateUpdate_frame:
  "clients (hostStateUpdate J c st s) = clients s \<and>
   numClients (hostStateUpdate J c st s) = numClients s \<and>
   heap (hostStateUpdate J c st s) = heap s \<and>
   subscriptions (hostStateUpdate J c st s) = subscriptions s"
  by (simp add: hostStateUpdate_def publishStateUpdate_def Let_def log_line_def
      split: prod.splits get_result.splits option.splits bool.splits)

lemma handleClientMessage_frame:
  assumes "handleClientMessage J p message s = Done s'"
  shows "clients s' = clients s \<and> numClients s' = numClients s \<and>
         subscriptions s' = subscriptions s"
  using assms
  by (auto simp: handleClientMessage_def hostStateUpdate_frame Let_def log_line_def
      split: option.splits if_splits outcome.splits)

lemma handleSessionUpdate_frame:
  assumes "handleSessionUpdate J clk channel payload s = Done s'"
  shows "clients s' = clients s \<and> numClients s' = numClients s \<and>
         subscriptions s' = subscriptions s"
  using assms
  by (auto simp: handleSessionUpdate_def broadcastState_def Let_def log_line_def
      split: option.splits if_splits outcome.splits)



lemma count_inv_log [simp]: "count_inv (log_line l s) = count_inv s"
  by (simp add: count_inv_def log_line_def removals_def)

lemma count_inv_rdb [simp]: "count_inv (s\<lparr>rdb := r\<rparr>) = count_inv s"
  by (simp add: count_inv_def removals_def)

lemma count_inv_inLoop [simp]: "count_inv (s\<lparr>inLoop := X\<rparr>) = count_inv s"
  by (simp add: count_inv_def removals_def)








lemma handleWebSocket_attachClient:
  "sid \<noteq> [] \<Longrightarrow> handleWebSocket J sid ih (Some h) now s =
     (let s2 = attachClient sid ih h s;
          s4 = subscribeToSessionUpdates sid (s2\<lparr>numClients := numClients s2 + 1\<rparr>)
      in if ih \<noteq> ''true'' then sendInitialState J (length (heap s)) now s4
         else Done (None, s4\<lparr>inLoop := insert (length (heap s)) (inLoop s4)\<rparr>))"
  by (simp add: handleWebSocket_def attachClient_def Let_def subscribeToSessionUpdates_def)





text \<open>
  Claim C9, as amended. Every accepted connection makes a subscription to the topic of its
  session, and no subscription is ever torn down: after every sequence of connect and
  disconnect events, the number of subscriptions to the topic of a session \<open>k\<close> is the
  number of connections accepted for \<open>k\<close> so far.
\<close>

theorem one_subscription_per_connection:
  "\<exists>s'. run J evs (init_node r) = Done s' \<and>
     count_list (subscriptions s') (''session-updates:'' @ k) = length (filter (accepted k) evs)"
proof -
  have "node_inv (inLoop (init_node r)) (init_node r)"
    using node_inv_init[of r] by (simp add: init_node_def)
  from run_inv[OF this, of J evs] obtain s' where
    "run J evs (init_node r) = Done s'"
    "subscriptions s' = subscriptions (init_node r) @ concat (map subs_of evs)" by blast
  then show ?thesis using count_subs_of[of evs k] by (simp add: init_node_def)
qed

theorem one_subscription_per_connection_witness:
  "map_outcome (\<lambda>s. count_list (subscriptions s) ''session-updates:abc'')
     (run sample_codec sample_events (init_node sample_keyspace)) = Done 2 \<and>
   map_outcome (\<lambda>s. count_list (subscriptions s) ''session-updates:xyz'')
     (run sample_codec sample_events (init_node sample_keyspace)) = Done 1"
proof -
  from one_subscription_per_connection[of sample_codec sample_events sample_keyspace "''abc''"]
    one_subscription_per_connection[of sample_codec sample_events sample_keyspace "''xyz''"]
  show ?thesis by (auto simp: sample_events_def)
qed

text \<open>
  Claim C9, as stated, fails: two connections to the same session leave two subscriptions
  to its topic, not one.
\<close>

theorem subscription_per_connection_counterexample:
  "map_outcome subscriptions
     (run sample_codec [Connect ''abc'' ''true'' (Some 1) 0, Connect ''abc'' ''false'' (Some 2) 0]
        (init_node sample_keyspace)) =
   Done [''session-updates:abc'', ''session-updates:abc'']"
proof -
  have "node_inv (inLoop (init_node sample_keyspace)) (init_node sample_keyspace)"
    using node_inv_init[of sample_keyspace] by (simp add: init_node_def)
  from run_inv[OF this, of sample_codec
      "[Connect ''abc'' ''true'' (Some 1) 0, Connect ''abc'' ''false'' (Some 2) 0]"]
  obtain s' where
    "run sample_codec [Connect ''abc'' ''true'' (Some 1) 0, Connect ''abc'' ''false'' (Some 2) 0]
        (init_node sample_keyspace) = Done s'"
    "subscriptions s' = subscriptions (init_node sample_keyspace) @
       concat (map subs_of [Connect ''abc'' ''true'' (Some 1) 0, Connect ''abc'' ''false'' (Some 2) 0])"
    by blast
  then show ?thesis by (simp add: init_node_def)
qed

subsection \<open>State updates from the host\<close>

lemma hostStateUpdate_apply:
  assumes nofault: "faults (rdb s) = []"
      and stored: "kv (rdb s) (''session:'' @ sessionID client @ '':state'') = Some v"
      and sr: "unmarshal_state J v = Some stateFromRedis"
      and sm: "unmarshal_state J state = Some stateFromMsg"
      and mr: "marshalRaw J state = Some stateJson"
  shows "hostStateUpdate J client state s =
     (if Timestamp stateFromMsg > Timestamp stateFromRedis
      then s\<lparr>rdb := (rdb s)\<lparr>kv := (kv (rdb s))(''session:'' @ sessionID client @ '':state'' \<mapsto> stateJson),
                             published := published (rdb s) @
                                [(''session-updates:'' @ sessionID client, stateJson)]\<rparr>\<rparr>
      else s)"
proof -
  have get: "rdb_Get (''session:'' @ sessionID client @ '':state'') (rdb s) = (Value v, rdb s)"
    using nofault stored by (simp add: rdb_Get_nofault)
  show ?thesis
  proof (cases "Timestamp stateFromMsg > Timestamp stateFromRedis")
    case True
    then show ?thesis using get sr sm mr nofault
      by (simp add: hostStateUpdate_def publishStateUpdate_def rdb_SetEX_nofault
          rdb_Publish_def next_fault_def)
  next
    case False
    then show ?thesis using get sr sm
      by (simp add: hostStateUpdate_def)
  qed
qed

lemma stateUpdate_from_participant_ignored:
  assumes "unmarshalEnvelope J message = Some (''stateUpdate'', state)" "\<not> isHost (heap s ! p)"
  shows "handleClientMessage J p message s = Done s"
  using assms by (simp add: handleClientMessage_def)

lemma host_stateUpdate_without_stored_state:
  assumes env: "unmarshalEnvelope J message = Some (''stateUpdate'', state)"
      and host: "isHost (heap s ! p)"
      and nofault: "faults (rdb s) = []"
      and stored: "kv (rdb s) (''session:'' @ sessionID (heap s ! p) @ '':state'') = None"
  shows "\<exists>s'. handleClientMessage J p message s = Done s' \<and> rdb s' = rdb s"
  using assms
  by (simp add: handleClientMessage_def hostStateUpdate_def rdb_Get_nofault unmarshal_state_def
      log_line_def)

text \<open>
  Claim C1. A \<^verbatim>\<open>stateUpdate\<close> message from a connection whose host flag is set, when
  the state stored under \<^verbatim>\<open>session:<k>:state\<close> and the state of the message both
  decode and the keyspace answers its commands: if the timestamp of the message is
  strictly greater than the stored one, the node overwrites the state key with the state
  of the message and publishes it on the topic of the session, and nothing else changes;
  otherwise (equal or lower) the node is left exactly as it was, with the stored state
  unchanged and nothing published.
\<close>

theorem host_stateUpdate_higher_timestamp_wins:
  assumes env: "unmarshalEnvelope J message = Some (''stateUpdate'', state)"
      and host: "isHost (heap s ! p)"
      and nofault: "faults (rdb s) = []"
      and stored: "kv (rdb s) (''session:'' @ sessionID (heap s ! p) @ '':state'') = Some v"
      and sr: "unmarshal_state J v = Some stateFromRedis"
      and sm: "unmarshal_state J state = Some stateFromMsg"
      and mr: "marshalRaw J state = Some stateJson"
  shows "handleClientMessage J p message s =
     Done (if Timestamp stateFromMsg > Timestamp stateFromRedis
           then s\<lparr>rdb := (rdb s)\<lparr>kv := (kv (rdb s))
                                      (''session:'' @ sessionID (heap s ! p) @ '':state'' \<mapsto> stateJson),
                                  published := published (rdb s) @
                                      [(''session-updates:'' @ sessionID (heap s ! p), stateJson)]\<rparr>\<rparr>
           else s)"
  using env host hostStateUpdate_apply[OF nofault stored sr sm mr]
  by (simp add: handleClientMessage_def)

theorem host_stateUpdate_higher_timestamp_wins_witness:
  "handleClientMessage sample_codec 0 ''update 6000'' sample_node =
     Done (sample_node\<lparr>rdb := sample_keyspace
             \<lparr>kv := (kv sample_keyspace)(''session:abc:state'' \<mapsto> ''ts=6000''),
              published := [(''session-updates:abc'', ''ts=6000'')]\<rparr>\<rparr>) \<and>
   handleClientMessage sample_codec 0 ''update 5000'' sample_node = Done sample_node"
proof -
  have host: "isHost (heap sample_node ! 0)" by (simp add: sample_node_def sample_host_def)
  have sid: "sessionID (heap sample_node ! 0) = ''abc''"
    by (simp add: sample_node_def sample_host_def)
  have nofault: "faults (rdb sample_node) = []" by (simp add: sample_node_def sample_keyspace_def)
  have stored: "kv (rdb sample_node) (''session:'' @ sessionID (heap sample_node ! 0) @ '':state'')
      = Some ''ts=5000''"
    by (simp add: sample_node_def sample_host_def sample_keyspace_def)
  have sr: "unmarshal_state sample_codec ''ts=5000'' = Some (sample_state 5000)"
    and s6: "unmarshal_state sample_codec ''ts=6000'' = Some (sample_state 6000)"
    by (simp_all add: unmarshal_state_def sample_codec_def)
  have m6: "marshalRaw sample_codec ''ts=6000'' = Some ''ts=6000''"
    and m5: "marshalRaw sample_codec ''ts=5000'' = Some ''ts=5000''"
    by (simp_all add: sample_codec_def)
  have e6: "unmarshalEnvelope sample_codec ''update 6000'' = Some (''stateUpdate'', ''ts=6000'')"
    and e5: "unmarshalEnvelope sample_codec ''update 5000'' = Some (''stateUpdate'', ''ts=5000'')"
    by (simp_all add: sample_codec_def)
  have r: "rdb sample_node = sample_keyspace" "published sample_keyspace = []"
    by (simp_all add: sample_node_def sample_keyspace_def)
  from host_stateUpdate_higher_timestamp_wins[OF e6 host nofault stored sr s6 m6]
  have 1: "handleClientMessage sample_codec 0 ''update 6000'' sample_node =
     Done (sample_node\<lparr>rdb := sample_keyspace
             \<lparr>kv := (kv sample_keyspace)(''session:abc:state'' \<mapsto> ''ts=6000''),
              published := [(''session-updates:abc'', ''ts=6000'')]\<rparr>\<rparr>)"
    by (simp add: sid r sample_state_def)
  from host_stateUpdate_higher_timestamp_wins[OF e5 host nofault stored sr sr m5]
  have 2: "handleClientMessage sample_codec 0 ''update 5000'' sample_node = Done sample_node"
    by simp
  from 1 2 show ?thesis by blast
qed

subsection \<open>Topic delivery\<close>

lemma targets_cong:
  assumes "\<And>q. conn (h' ! q) = conn (h ! q)"
  shows "targets h' cs = targets h cs"
proof (induction cs)
  case Nil
  show ?case by simp
next
  case (Cons e cs)
  then show ?case by (cases e) (simp_all add: assms)
qed

lemma set_targets: "set (targets h cs) = {p. Some p \<in> set cs \<and> conn (h ! p) \<noteq> None}"
  by (induction h cs rule: targets.induct) auto

lemma conn_deliver [simp]: "conn (deliver v c) = conn c"
  by (simp add: deliver_def split: option.splits)

lemma sessionID_deliver [simp]: "sessionID (deliver v c) = sessionID c"
  by (simp add: deliver_def split: option.splits)

lemma send_deliver: "send (deliver v c) = map_option (push v) (send c)"
  by (simp add: deliver_def split: option.splits)

lemma closed_push [simp]: "closed (push v ch) = closed ch"
  by (simp add: push_def)

lemma room_deliver: "room (deliver v c) = room c - 1"
  by (auto simp: room_def deliver_def push_def split: option.splits)

lemma select_send_deliver:
  assumes "\<And>ch. send c = Some ch \<Longrightarrow> \<not> closed ch"
  shows "select_send (send c) v = Done (send (deliver v c), room c \<noteq> 0)"
  using assms
  by (auto simp: select_send_def deliver_def push_def room_def split: option.splits)

lemma deliver_full: "room c = 0 \<Longrightarrow> deliver v c = c"
  by (auto simp: room_def deliver_def push_def split: option.splits)

lemma update_send_deliver: "c\<lparr>send := send (deliver v c)\<rparr> = deliver v c"
  by (simp add: deliver_def split: option.splits)

lemma broadcast_inner_spec:
  assumes "sendable h cs"
  shows "\<exists>h' lg'. broadcast_inner sid v cs (h, lg) = Done (h', lg') \<and> length h' = length h \<and>
           (\<forall>q. h' ! q = (if q \<in> set (targets h cs) then deliver v (h ! q) else h ! q)) \<and>
           lg' = lg @ replicate (length (filter (\<lambda>q. room (h ! q) = 0) (targets h cs))) (drop_line sid)"
  using assms
proof (induction cs arbitrary: h lg)
  case Nil
  then show ?case by simp
next
  case (Cons e cs)
  show ?case
  proof (cases e)
    case None
    with Cons.prems have "sendable h cs" by (simp add: sendable_def)
    from Cons.IH[OF this, of lg] None show ?thesis by simp
  next
    case (Some p)
    show ?thesis
    proof (cases "conn (h ! p) = None")
      case True
      with Cons.prems Some have "sendable h cs" by (simp add: sendable_def)
      from Cons.IH[OF this, of lg] Some True show ?thesis by simp
    next
      case False
      with Cons.prems Some have p: "p < length h" "p \<notin> set (targets h cs)"
        and opn: "\<And>ch. send (h ! p) = Some ch \<Longrightarrow> \<not> closed ch"
        and rest: "sendable h cs"
        by (auto simp: sendable_def)
      have tg: "targets h (e # cs) = p # targets h cs" using Some False by auto
      define h1 where "h1 = h[p := deliver v (h ! p)]"
      define lg1 where "lg1 = (if room (h ! p) = 0 then lg @ [drop_line sid] else lg)"
      have conn1: "conn (h1 ! q) = conn (h ! q)" for q
        using p(1) by (cases "q = p") (simp_all add: h1_def)
      have t1: "targets h1 cs = targets h cs" by (rule targets_cong) (rule conn1)
      have same: "q \<noteq> p \<Longrightarrow> h1 ! q = h ! q" for q by (simp add: h1_def)
      have atp: "h1 ! p = deliver v (h ! p)" using p(1) by (simp add: h1_def)
      have s1: "sendable h1 cs"
      proof -
        have "q < length h1 \<and> (\<forall>ch. send (h1 ! q) = Some ch \<longrightarrow> \<not> closed ch)"
          if q: "q \<in> set (targets h cs)" for q
        proof -
          from q have "q \<noteq> p" using p(2) by auto
          then have "h1 ! q = h ! q" by (rule same)
          with rest q show ?thesis by (simp add: sendable_def h1_def)
        qed
        moreover have "distinct (targets h cs)" using rest by (simp add: sendable_def)
        ultimately show ?thesis by (simp add: sendable_def t1)
      qed
      have step: "broadcast_inner sid v (e # cs) (h, lg) = broadcast_inner sid v cs (h1, lg1)"
      proof (cases "room (h ! p) = 0")
        case True
        then have "h1 = h" using p(1) by (simp add: h1_def deliver_full)
        with True False Some select_send_deliver[of "h ! p" v, OF opn] show ?thesis
          by (auto simp: lg1_def)
      next
        case nz: False
        with False Some select_send_deliver[of "h ! p" v, OF opn] show ?thesis
          by (auto simp: lg1_def h1_def update_send_deliver)
      qed
      from Cons.IH[OF s1, of lg1] obtain h' lg' where
        res: "broadcast_inner sid v cs (h1, lg1) = Done (h', lg')" "length h' = length h1"
          "\<forall>q. h' ! q = (if q \<in> set (targets h1 cs) then deliver v (h1 ! q) else h1 ! q)"
          "lg' = lg1 @ replicate (length (filter (\<lambda>q. room (h1 ! q) = 0) (targets h1 cs))) (drop_line sid)"
        by blast
      have f: "filter (\<lambda>q. room (h1 ! q) = 0) (targets h cs) = filter (\<lambda>q. room (h ! q) = 0) (targets h cs)"
      proof (rule filter_cong[OF refl])
        fix q assume "q \<in> set (targets h cs)"
        with p(2) have "q \<noteq> p" by auto
        then show "(room (h1 ! q) = 0) = (room (h ! q) = 0)" by (simp add: same)
      qed
      have pts: "\<forall>q. h' ! q = (if q \<in> set (targets h (e # cs)) then deliver v (h ! q) else h ! q)"
      proof
        fix q
        show "h' ! q = (if q \<in> set (targets h (e # cs)) then deliver v (h ! q) else h ! q)"
        proof (cases "q = p")
          case True
          with res(3) t1 p(2) atp show ?thesis by (simp add: tg)
        next
          case neq: False
          with res(3) t1 same show ?thesis by (simp add: tg)
        qed
      qed
      have lgs: "lg' = lg @ replicate (length (filter (\<lambda>q. room (h ! q) = 0) (targets h (e # cs)))) (drop_line sid)"
        using res(4) by (simp add: tg t1 f lg1_def replicate_app_Cons_same)
      from step res(1,2) pts lgs show ?thesis by (simp add: h1_def)
    qed
  qed
qed

lemma updates_Suc: "updates st clk j (Suc m) = StateUpdate st (UnixMilli (clk j)) # updates st clk (Suc j) m"
proof -
  have "[j..<j + Suc m] = j # [Suc j..<Suc j + m]"
    by (simp add: upt_conv_Cons)
  then show ?thesis by (simp add: updates_def)
qed

lemma updates_0 [simp]: "updates st clk j 0 = []"
  by (simp add: updates_def)

lemma length_updates [simp]: "length (updates st clk j m) = m"
  by (simp add: updates_def)

lemma deliver_all_buf:
  "send c = Some ch \<Longrightarrow>
   send (deliver_all vs c) = Some (ch\<lparr>buf := buf ch @ take (cap ch - length (buf ch)) vs\<rparr>)"
proof (induction vs arbitrary: c ch)
  case Nil
  then show ?case by simp
next
  case (Cons v vs)
  have s: "send (deliver v c) = Some (push v ch)" using Cons.prems by (simp add: send_deliver)
  show ?case
  proof (cases "length (buf ch) < cap ch")
    case True
    then obtain k where k: "cap ch - length (buf ch) = Suc k" by (metis Suc_diff_Suc)
    then have "cap ch - Suc (length (buf ch)) = k" by simp
    with Cons.IH[OF s] True k show ?thesis by (simp add: push_def)
  next
    case False
    with Cons.IH[OF s] show ?thesis by (simp add: push_def)
  qed
qed

lemma deliver_all_nil_chan: "send c = None \<Longrightarrow> deliver_all vs c = c"
  by (induction vs) (simp_all add: deliver_def)

lemma drops_step:
  assumes "\<forall>q\<in>set ts. r1 q = r q - (1::nat)"
  shows "length (filter (\<lambda>q. r q = 0) ts) + (\<Sum>q\<leftarrow>ts. m - min m (r1 q))
           = (\<Sum>q\<leftarrow>ts. Suc m - min (Suc m) (r q))"
  using assms
proof (induction ts)
  case Nil
  show ?case by simp
next
  case (Cons t ts)
  then have ih: "length (filter (\<lambda>q. r q = 0) ts) + (\<Sum>q\<leftarrow>ts. m - min m (r1 q))
           = (\<Sum>q\<leftarrow>ts. Suc m - min (Suc m) (r q))" by simp
  from Cons.prems have t: "r1 t = r t - 1" by simp
  have "(if r t = 0 then 1 else 0) + (m - min m (r1 t)) = Suc m - min (Suc m) (r t)"
    unfolding t by (cases "r t") (auto simp: min_def)
  with ih show ?case by (cases "r t = 0") simp_all
qed

lemma broadcast_outer_spec:
  assumes "sendable h cs" and mr: "marshalRaw J state = Some st"
  shows "\<exists>h' lg'. broadcast_outer J clk sid state cs j rest (h, lg) = Done (h', lg') \<and>
           length h' = length h \<and>
           (\<forall>q. h' ! q = (if q \<in> set (targets h cs)
                           then deliver_all (updates st clk j (length (targets h rest))) (h ! q)
                           else h ! q)) \<and>
           lg' = lg @ replicate
                   (\<Sum>q\<leftarrow>targets h cs. length (targets h rest)
                                            - min (length (targets h rest)) (room (h ! q)))
                   (drop_line sid)"
  using assms(1)
proof (induction rest arbitrary: h lg j)
  case Nil
  then show ?case by simp
next
  case (Cons e rest)
  show ?case
  proof (cases e)
    case None
    then have eq: "broadcast_outer J clk sid state cs j (e # rest) (h, lg)
              = broadcast_outer J clk sid state cs j rest (h, lg)"
      "targets h (e # rest) = targets h rest" by simp_all
    from Cons.IH[OF Cons.prems, of j lg] show ?thesis by (simp only: eq)
  next
    case (Some p)
    show ?thesis
    proof (cases "conn (h ! p) = None")
      case True
      with Some have eq: "broadcast_outer J clk sid state cs j (e # rest) (h, lg)
              = broadcast_outer J clk sid state cs j rest (h, lg)"
        "targets h (e # rest) = targets h rest" by simp_all
      from Cons.IH[OF Cons.prems, of j lg] show ?thesis by (simp only: eq)
    next
      case False
      let ?v = "StateUpdate st (UnixMilli (clk j))"
      let ?m = "length (targets h rest)"
      have tg: "targets h (e # rest) = p # targets h rest" using Some False by auto
      from broadcast_inner_spec[OF Cons.prems, of sid ?v lg] obtain h1 lg1 where
        inner: "broadcast_inner sid ?v cs (h, lg) = Done (h1, lg1)" "length h1 = length h"
          "\<forall>q. h1 ! q = (if q \<in> set (targets h cs) then deliver ?v (h ! q) else h ! q)"
          "lg1 = lg @ replicate (length (filter (\<lambda>q. room (h ! q) = 0) (targets h cs))) (drop_line sid)"
        by blast
      have conn1: "conn (h1 ! q) = conn (h ! q)" for q using inner(3) by simp
      have t1: "targets h1 xs = targets h xs" for xs by (rule targets_cong) (rule conn1)
      have s1: "sendable h1 cs"
      proof -
        have "q < length h1 \<and> (\<forall>ch. send (h1 ! q) = Some ch \<longrightarrow> \<not> closed ch)"
          if q: "q \<in> set (targets h cs)" for q
        proof -
          from q inner(3) have "send (h1 ! q) = map_option (push ?v) (send (h ! q))"
            by (simp add: send_deliver)
          with Cons.prems q inner(2) show ?thesis by (auto simp: sendable_def)
        qed
        moreover have "distinct (targets h cs)" using Cons.prems by (simp add: sendable_def)
        ultimately show ?thesis by (simp add: sendable_def t1)
      qed
      have step: "broadcast_outer J clk sid state cs j (e # rest) (h, lg)
            = broadcast_outer J clk sid state cs (Suc j) rest (h1, lg1)"
        using Some False mr inner(1) by auto
      from Cons.IH[OF s1, of "Suc j" lg1] obtain h' lg' where
        res: "broadcast_outer J clk sid state cs (Suc j) rest (h1, lg1) = Done (h', lg')"
          "length h' = length h1"
          "\<forall>q. h' ! q = (if q \<in> set (targets h cs)
                           then deliver_all (updates st clk (Suc j) ?m) (h1 ! q)
                           else h1 ! q)"
          "lg' = lg1 @ replicate (\<Sum>q\<leftarrow>targets h cs. ?m - min ?m (room (h1 ! q))) (drop_line sid)"
        unfolding t1 by blast
      have pts: "\<forall>q. h' ! q = (if q \<in> set (targets h cs)
                           then deliver_all (updates st clk j (length (targets h (e # rest)))) (h ! q)
                           else h ! q)"
        using res(3) inner(3) by (simp add: tg updates_Suc)
      have "\<forall>q\<in>set (targets h cs). room (h1 ! q) = room (h ! q) - 1"
        using inner(3) by (simp add: room_deliver)
      from drops_step[OF this, of ?m]
      have "length (filter (\<lambda>q. room (h ! q) = 0) (targets h cs))
              + (\<Sum>q\<leftarrow>targets h cs. ?m - min ?m (room (h1 ! q)))
            = (\<Sum>q\<leftarrow>targets h cs. Suc ?m - min (Suc ?m) (room (h ! q)))" .
      then have lgs: "lg' = lg @ replicate
                   (\<Sum>q\<leftarrow>targets h cs. length (targets h (e # rest))
                                            - min (length (targets h (e # rest))) (room (h ! q)))
                   (drop_line sid)"
        using res(4) inner(4) by (simp add: tg replicate_add[symmetric])
      from step res(1,2) inner(2) pts lgs show ?thesis by simp
    qed
  qed
qed

lemma distinct_targets: "distinct cs \<Longrightarrow> distinct (targets h cs)"
  by (induction h cs rule: targets.induct) (auto simp: set_targets)

lemma node_inv_sendable:
  assumes "node_inv L s" "clients s sid = Some cs"
  shows "sendable (heap s) cs"
proof -
  from assms have d: "distinct cs"
    and m: "\<forall>e\<in>set cs. \<exists>p\<in>L. e = Some p"
    unfolding node_inv_def by blast+
  have "p < length (heap s) \<and> (\<forall>ch. send (heap s ! p) = Some ch \<longrightarrow> \<not> closed ch)"
    if "p \<in> set (targets (heap s) cs)" for p
  proof -
    from that have "Some p \<in> set cs" by (simp add: set_targets)
    with m have "p \<in> L" by auto
    with assms(1) show ?thesis unfolding node_inv_def by auto
  qed
  with distinct_targets[OF d] show ?thesis by (simp add: sendable_def)
qed

lemma broadcastState_spec:
  assumes bucket: "clients s sid = Some cs" and ok: "sendable (heap s) cs"
      and mr: "marshalRaw J state = Some st"
  shows "\<exists>s'. broadcastState J clk sid state s = Done s' \<and>
           length (heap s') = length (heap s) \<and>
           (\<forall>q. heap s' ! q =
                  (if q \<in> set (targets (heap s) cs)
                   then deliver_all (updates st clk 0 (length (targets (heap s) cs))) (heap s ! q)
                   else heap s ! q)) \<and>
           logs s' = logs s @ replicate
                       (\<Sum>q\<leftarrow>targets (heap s) cs. length (targets (heap s) cs)
                            - min (length (targets (heap s) cs)) (room (heap s ! q)))
                       (drop_line sid) \<and>
           clients s' = clients s \<and> numClients s' = numClients s \<and> rdb s' = rdb s \<and>
           subscriptions s' = subscriptions s"
proof (cases "cs = []")
  case True
  with bucket show ?thesis by (simp add: broadcastState_def Let_def)
next
  case False
  from broadcast_outer_spec[OF ok mr, of clk sid 0 cs "logs s"] obtain h' lg' where
    "broadcast_outer J clk sid state cs 0 cs (heap s, logs s) = Done (h', lg')"
    "length h' = length (heap s)"
    "\<forall>q. h' ! q = (if q \<in> set (targets (heap s) cs)
                      then deliver_all (updates st clk 0 (length (targets (heap s) cs))) (heap s ! q)
                      else heap s ! q)"
    "lg' = logs s @ replicate
             (\<Sum>q\<leftarrow>targets (heap s) cs. length (targets (heap s) cs)
                  - min (length (targets (heap s) cs)) (room (heap s ! q)))
             (drop_line sid)"
    by blast
  with False bucket show ?thesis by (simp add: broadcastState_def Let_def)
qed

lemma sample_bucket: "clients sample_node ''abc'' = Some [Some 0, Some 1]"
  by (simp add: sample_node_def)

lemma sample_heap:
  "heap sample_node ! 0 = sample_host"
  "heap sample_node ! 1 = sample_viewer"
  "heap sample_node ! Suc 0 = sample_viewer"
  by (simp_all add: sample_node_def)

lemma sample_targets: "targets (heap sample_node) [Some 0, Some 1] = [0, 1]"
  by (simp add: sample_heap sample_host_def sample_viewer_def)

lemma sample_sendable: "sendable (heap sample_node) [Some 0, Some 1]"
  unfolding sendable_def sample_targets
  by (simp add: sample_heap) (simp add: sample_node_def sample_host_def sample_viewer_def make_chan_def)

lemma sample_updates:
  "updates ''ts=6000'' sample_clock 0 (Suc (Suc 0)) =
     [StateUpdate ''ts=6000'' 1700000000000, StateUpdate ''ts=6000'' 1700000000001]"
  by (simp add: updates_Suc sample_clock_def UnixMilli_def)

lemma sample_room: "room sample_host = 256" "room sample_viewer = 0"
  by (simp_all add: room_def sample_host_def sample_viewer_def make_chan_def)

text \<open>
  Claim C10. \<open>broadcastState\<close> on a bucket whose snapshot has \<open>n\<close> connections with
  sockets that are not nil makes \<open>n\<close> turns of its outer loop, and each turn offers its
  own payload (the state with the clock reading of that turn) to every one of the \<open>n\<close>
  connections. So each such connection is offered \<open>n\<close> payloads, not one: its queue
  grows by as many of the \<open>n\<close> payloads, in order, as it has room for, the others are
  dropped, every drop is logged, and the connections outside the snapshot are untouched.
\<close>

theorem broadcastState_one_copy_per_round:
  assumes bucket: "clients s sid = Some cs" and ok: "sendable (heap s) cs"
      and mr: "marshalRaw J state = Some st"
  shows "\<exists>s'. broadcastState J clk sid state s = Done s' \<and>
           (\<forall>p\<in>set (targets (heap s) cs). \<forall>ch. send (heap s ! p) = Some ch \<longrightarrow>
              send (heap s' ! p) =
                Some (ch\<lparr>buf := buf ch @ take (cap ch - length (buf ch))
                                     (updates st clk 0 (length (targets (heap s) cs)))\<rparr>)) \<and>
           (\<forall>q. q \<notin> set (targets (heap s) cs) \<longrightarrow> heap s' ! q = heap s ! q) \<and>
           logs s' = logs s @ replicate
                       (\<Sum>p\<leftarrow>targets (heap s) cs. length (targets (heap s) cs)
                            - min (length (targets (heap s) cs)) (room (heap s ! p)))
                       (drop_line sid)"
proof -
  from broadcastState_spec[OF bucket ok mr, of clk] obtain s' where
    s': "broadcastState J clk sid state s = Done s'"
      "\<forall>q. heap s' ! q =
                  (if q \<in> set (targets (heap s) cs)
                   then deliver_all (updates st clk 0 (length (targets (heap s) cs))) (heap s ! q)
                   else heap s ! q)"
      "logs s' = logs s @ replicate
                       (\<Sum>q\<leftarrow>targets (heap s) cs. length (targets (heap s) cs)
                            - min (length (targets (heap s) cs)) (room (heap s ! q)))
                       (drop_line sid)"
    by blast
  have "send (heap s' ! p) =
                Some (ch\<lparr>buf := buf ch @ take (cap ch - length (buf ch))
                                     (updates st clk 0 (length (targets (heap s) cs)))\<rparr>)"
    if "p \<in> set (targets (heap s) cs)" "send (heap s ! p) = Some ch" for p ch
    using that s'(2) by (simp add: deliver_all_buf)
  with s' show ?thesis by auto
qed

theorem broadcastState_one_copy_per_round_witness:
  "\<exists>s'. broadcastState sample_codec sample_clock ''abc'' ''ts=6000'' sample_node = Done s' \<and>
     map_option buf (send (heap s' ! 0)) =
       Some [StateUpdate ''ts=6000'' 1700000000000, StateUpdate ''ts=6000'' 1700000000001] \<and>
     map_option buf (send (heap s' ! 1)) = Some (replicate 256 (StateUpdate ''ts=5000'' 0)) \<and>
     logs s' = [drop_line ''abc'', drop_line ''abc'']"
proof -
  have mr: "marshalRaw sample_codec ''ts=6000'' = Some ''ts=6000''"
    by (simp add: sample_codec_def)
  from broadcastState_one_copy_per_round[OF sample_bucket sample_sendable mr, of sample_clock]
  obtain s' where
    run: "broadcastState sample_codec sample_clock ''abc'' ''ts=6000'' sample_node = Done s'"
    and q: "\<forall>p\<in>set [0, 1]. \<forall>ch. send (heap sample_node ! p) = Some ch \<longrightarrow>
              send (heap s' ! p) =
                Some (ch\<lparr>buf := buf ch @ take (cap ch - length (buf ch))
                                     (updates ''ts=6000'' sample_clock 0 (Suc (Suc 0)))\<rparr>)"
    and l: "logs s' = logs sample_node @ replicate
                       (\<Sum>p\<leftarrow>[0, 1]. Suc (Suc 0) - min (Suc (Suc 0)) (room (heap sample_node ! p)))
                       (drop_line ''abc'')"
    unfolding sample_targets by (auto simp: numeral_2_eq_2)
  from q have "send (heap s' ! 0) = Some ((make_chan 256)\<lparr>buf := 
      [StateUpdate ''ts=6000'' 1700000000000, StateUpdate ''ts=6000'' 1700000000001]\<rparr>)"
    by (simp add: sample_heap sample_host_def make_chan_def sample_updates)
  moreover from q have "send (heap s' ! 1) = send sample_viewer"
    by (simp add: sample_heap sample_viewer_def)
  moreover from l have "logs s' = [drop_line ''abc'', drop_line ''abc'']"
    by (simp add: sample_heap sample_room sample_node_def)
  ultimately show ?thesis using run by (simp add: sample_viewer_def)
qed

text \<open>
  Claim C2. A message received on the topic of a session, whose payload is accepted by
  the JSON decoder, is handled without blocking, and for every connection of the bucket
  of that session (the host's included): when its queue has room, a \<^verbatim>\<open>stateUpdate\<close> with
  that state and the wall-clock time of the node in milliseconds is appended to the
  queue, whatever the state of the other queues; when its queue is full, the queue is
  left as it was and the drop is logged.
\<close>

theorem handleSessionUpdate_delivers:
  assumes raw: "unmarshal_raw J payload = Some state" and mr: "marshalRaw J state = Some st"
      and bucket: "clients s sid = Some cs" and ok: "sendable (heap s) cs"
      and p: "Some p \<in> set cs" "conn (heap s ! p) \<noteq> None"
      and ch: "send (heap s ! p) = Some ch"
  shows "\<exists>s' ch'. handleSessionUpdate J clk (''session-updates:'' @ sid) payload s = Done s' \<and>
           send (heap s' ! p) = Some ch' \<and>
           (if length (buf ch) < cap ch
            then \<exists>more. buf ch' = buf ch @ StateUpdate st (UnixMilli (clk 0)) # more
            else ch' = ch \<and> drop_line sid \<in> set (drop (length (logs s)) (logs s')))"
proof -
  let ?s1 = "log_line (''Received update for session '' @ sid @ '': '' @ payload) s"
  let ?ts = "targets (heap s) cs"
  let ?n = "length ?ts"
  have pt: "p \<in> set ?ts" using p by (simp add: set_targets)
  then have n: "0 < ?n" by (cases ?ts) auto
  then obtain m where m: "?n = Suc m" by (cases ?n) auto
  have run: "handleSessionUpdate J clk (''session-updates:'' @ sid) payload s
               = broadcastState J clk sid state ?s1"
    using raw by (simp add: handleSessionUpdate_def)
  have "clients ?s1 sid = Some cs" "sendable (heap ?s1) cs"
    using bucket ok by simp_all
  from broadcastState_spec[OF this mr, of clk] obtain s' where
    s': "broadcastState J clk sid state ?s1 = Done s'"
      "\<forall>q. heap s' ! q = (if q \<in> set ?ts then deliver_all (updates st clk 0 ?n) (heap s ! q)
                            else heap s ! q)"
      "logs s' = logs ?s1 @ replicate (\<Sum>q\<leftarrow>?ts. ?n - min ?n (room (heap s ! q))) (drop_line sid)"
    by auto
  from s'(2) pt ch have snd: "send (heap s' ! p) =
      Some (ch\<lparr>buf := buf ch @ take (cap ch - length (buf ch)) (updates st clk 0 ?n)\<rparr>)"
    by (simp add: deliver_all_buf)
  show ?thesis
  proof (cases "length (buf ch) < cap ch")
    case True
    then obtain k where "cap ch - length (buf ch) = Suc k" by (metis Suc_diff_Suc)
    then have "buf ch @ take (cap ch - length (buf ch)) (updates st clk 0 ?n)
        = buf ch @ StateUpdate st (UnixMilli (clk 0)) # take k (updates st clk (Suc 0) m)"
      by (simp add: m updates_Suc)
    with True snd run s'(1) show ?thesis by simp
  next
    case False
    then have r: "room (heap s ! p) = 0" using ch by (simp add: room_def)
    have "?n - min ?n (room (heap s ! p)) \<in> set (map (\<lambda>q. ?n - min ?n (room (heap s ! q))) ?ts)"
      using pt by (auto simp del: min_0R)
    from member_le_sum_list[OF this] r
    have "?n \<le> (\<Sum>q\<leftarrow>?ts. ?n - min ?n (room (heap s ! q)))" by simp
    with n have "0 < (\<Sum>q\<leftarrow>?ts. ?n - min ?n (room (heap s ! q)))" by linarith
    then obtain d where d: "(\<Sum>q\<leftarrow>?ts. ?n - min ?n (room (heap s ! q))) = Suc d"
      by (metis Suc_pred)
    have "logs s' = logs s @ (''Received update for session '' @ sid @ '': '' @ payload)
                      # drop_line sid # replicate d (drop_line sid)"
      unfolding s'(3) d by (simp add: log_line_def)
    then have "drop_line sid \<in> set (drop (length (logs s)) (logs s'))"
      by simp
    with False snd run s'(1) show ?thesis by simp
  qed
qed

theorem handleSessionUpdate_delivers_witness:
  "\<exists>s' more. handleSessionUpdate sample_codec sample_clock ''session-updates:abc'' ''ts=6000''
                 sample_node = Done s' \<and>
     map_option buf (send (heap s' ! 0)) = Some (StateUpdate ''ts=6000'' 1700000000000 # more) \<and>
     send (heap s' ! 1) = send sample_viewer \<and>
     drop_line ''abc'' \<in> set (logs s')"
proof -
  have raw: "unmarshal_raw sample_codec ''ts=6000'' = Some ''ts=6000''"
    by (simp add: unmarshal_raw_def sample_codec_def)
  have mr: "marshalRaw sample_codec ''ts=6000'' = Some ''ts=6000''"
    by (simp add: sample_codec_def)
  have c0: "conn (heap sample_node ! 0) \<noteq> None" and c1: "conn (heap sample_node ! 1) \<noteq> None"
    by (simp_all add: sample_heap sample_host_def sample_viewer_def)
  have s0: "send (heap sample_node ! 0) = Some (make_chan 256)"
    and s1: "send (heap sample_node ! 1) =
               Some \<lparr>buf = replicate 256 (StateUpdate ''ts=5000'' 0), cap = 256, closed = False\<rparr>"
    by (simp_all add: sample_heap sample_host_def sample_viewer_def)
  have m0: "Some 0 \<in> set [Some 0, Some (1::nat)]" and m1: "Some 1 \<in> set [Some 0, Some (1::nat)]"
    by simp_all
  have t: "UnixMilli (sample_clock 0) = 1700000000000"
    by (simp add: sample_clock_def UnixMilli_def)
  from handleSessionUpdate_delivers[OF raw mr sample_bucket sample_sendable m0 c0 s0, of sample_clock]
  obtain s' ch' more where
    run: "handleSessionUpdate sample_codec sample_clock (''session-updates:'' @ ''abc'') ''ts=6000''
            sample_node = Done s'"
    and h: "send (heap s' ! 0) = Some ch'" "buf ch' = StateUpdate ''ts=6000'' 1700000000000 # more"
    by (auto simp: make_chan_def t)
  from handleSessionUpdate_delivers[OF raw mr sample_bucket sample_sendable m1 c1 s1, of sample_clock]
    run
  have v: "send (heap s' ! 1) = send sample_viewer"
    "drop_line ''abc'' \<in> set (drop (length (logs sample_node)) (logs s'))"
    by (auto simp: sample_heap sample_viewer_def)
  from v(2) have "drop_line ''abc'' \<in> set (logs s')" by (rule in_set_dropD)
  with run h v(1) show ?thesis by auto
qed

subsection \<open>The invariant under the other handlers\<close>

text \<open>
  The handlers of client messages and of topic messages keep the invariant of the runs:
  they change queues, the keyspace and the log only. So the hypothesis \<open>sendable\<close> of the
  theorems on topic delivery holds in whatever order connections, disconnections,
  client messages and topic messages are handled.
\<close>

lemma same_shape_refl: "same_shape h h"
  by (simp add: same_shape_def)

lemma same_shape_trans: "same_shape h h1 \<Longrightarrow> same_shape h1 h2 \<Longrightarrow> same_shape h h2"
  by (simp add: same_shape_def)

lemma same_shape_send:
  assumes "send (h ! p) = Some c" "\<not> closed c"
  shows "same_shape h (h[p := (h ! p)\<lparr>send := Some (c\<lparr>buf := b\<rparr>)\<rparr>])"
proof (cases "p < length h")
  case True
  show ?thesis
    unfolding same_shape_def
  proof (intro conjI allI)
    fix q
    show "sessionID (h[p := (h ! p)\<lparr>send := Some (c\<lparr>buf := b\<rparr>)\<rparr>] ! q) = sessionID (h ! q)"
      using True by (cases "q = p") simp_all
    show "conn (h[p := (h ! p)\<lparr>send := Some (c\<lparr>buf := b\<rparr>)\<rparr>] ! q) = conn (h ! q)"
      using True by (cases "q = p") simp_all
    show "(\<exists>ch. send (h ! q) = Some ch \<and> \<not> closed ch) \<longrightarrow>
          (\<exists>ch. send (h[p := (h ! p)\<lparr>send := Some (c\<lparr>buf := b\<rparr>)\<rparr>] ! q) = Some ch \<and> \<not> closed ch)"
      using True assms by (cases "q = p") simp_all
  qed simp
next
  case False
  then have "h[p := (h ! p)\<lparr>send := Some (c\<lparr>buf := b\<rparr>)\<rparr>] = h"
    by (simp add: list_update_beyond)
  then show ?thesis by (simp add: same_shape_refl)
qed

lemma broadcast_inner_shape:
  "broadcast_inner sid v cs (h, lg) = Done (h', lg') \<Longrightarrow> same_shape h h'"
proof (induction cs arbitrary: h lg)
  case Nil
  then show ?case by (simp add: same_shape_refl)
next
  case (Cons e cs)
  show ?case
  proof (cases e)
    case None
    with Cons show ?thesis by simp
  next
    case (Some p)
    show ?thesis
    proof (cases "conn (h ! p) = None")
      case True
      with Cons Some show ?thesis by simp
    next
      case False
      show ?thesis
      proof (cases "send (h ! p)")
        case None
        with Cons.prems Some False
        have "broadcast_inner sid v cs (h, lg @ [drop_line sid]) = Done (h', lg')"
          by (auto simp: select_send_def)
        then show ?thesis by (rule Cons.IH)
      next
        case c: (Some c)
        show ?thesis
        proof (cases "closed c")
          case True
          with Cons.prems Some False c show ?thesis by (auto simp: select_send_def)
        next
          case op: False
          show ?thesis
          proof (cases "length (buf c) < cap c")
            case True
            with Cons.prems Some False c op
            have "broadcast_inner sid v cs
                    (h[p := (h ! p)\<lparr>send := Some (c\<lparr>buf := buf c @ [v]\<rparr>)\<rparr>], lg) = Done (h', lg')"
              by (auto simp: select_send_def)
            from Cons.IH[OF this] same_shape_send[OF c op] show ?thesis
              by (rule same_shape_trans[rotated])
          next
            case full: False
            with Cons.prems Some False c op
            have "broadcast_inner sid v cs (h, lg @ [drop_line sid]) = Done (h', lg')"
              by (auto simp: select_send_def)
            then show ?thesis by (rule Cons.IH)
          qed
        qed
      qed
    qed
  qed
qed

lemma broadcast_outer_shape:
  "broadcast_outer J clk sid state cs j rest (h, lg) = Done (h', lg') \<Longrightarrow> same_shape h h'"
proof (induction rest arbitrary: h lg j)
  case Nil
  then show ?case by (simp add: same_shape_refl)
next
  case (Cons e rest)
  show ?case
  proof (cases e)
    case None
    with Cons show ?thesis by simp
  next
    case (Some p)
    show ?thesis
    proof (cases "conn (h ! p) = None")
      case True
      with Cons Some show ?thesis by simp
    next
      case False
      show ?thesis
      proof (cases "marshalRaw J state")
        case None
        with Cons.prems Some False show ?thesis by (auto simp: same_shape_refl)
      next
        case st: (Some st)
        show ?thesis
        proof (cases "broadcast_inner sid (StateUpdate st (UnixMilli (clk j))) cs (h, lg)")
          case (Done r)
          obtain h1 lg1 where r: "r = (h1, lg1)" by (cases r)
          with Done Cons.prems Some False st
          have "broadcast_outer J clk sid state cs (Suc j) rest (h1, lg1) = Done (h', lg')"
            by auto
          from Cons.IH[OF this] broadcast_inner_shape[OF Done[unfolded r]] show ?thesis
            by (rule same_shape_trans[rotated])
        next
          case Blocked
          with Cons.prems Some False st show ?thesis by auto
        next
          case Panicked
          with Cons.prems Some False st show ?thesis by auto
        qed
      qed
    qed
  qed
qed

lemma node_inv_same_shape:
  assumes inv: "node_inv L s" and sh: "same_shape (heap s) h'"
  shows "node_inv L (s\<lparr>heap := h'\<rparr>)"
  using assms unfolding node_inv_def same_shape_def liveConnections_def
  by simp

lemma broadcastState_inv:
  assumes "node_inv L s" "broadcastState J clk sid state s = Done s'"
  shows "node_inv L s'"
proof -
  have lk: "node_inv L (s\<lparr>client_lock := X\<rparr>)" for X
    using assms(1) by (simp add: node_inv_def liveConnections_def)
  show ?thesis
  proof (cases "clients s sid")
    case None
    with assms(2) lk show ?thesis by (auto simp: broadcastState_def Let_def)
  next
    case (Some cs)
    show ?thesis
    proof (cases "cs = []")
      case True
      with Some assms(2) lk show ?thesis by (auto simp: broadcastState_def Let_def)
    next
      case False
      with Some assms(2) obtain h lg where
        out: "broadcast_outer J clk sid state cs 0 cs (heap s, logs s) = Done (h, lg)"
        and s': "s' = s\<lparr>client_lock := insert sid (client_lock s), heap := h, logs := lg\<rparr>"
        by (auto simp: broadcastState_def Let_def split: outcome.splits)
      from node_inv_same_shape[OF lk[of "insert sid (client_lock s)"], of h]
        broadcast_outer_shape[OF out]
      have "node_inv L (s\<lparr>client_lock := insert sid (client_lock s), heap := h\<rparr>)" by simp
      then show ?thesis unfolding s' by (simp add: node_inv_def liveConnections_def)
    qed
  qed
qed

lemma handleSessionUpdate_inv:
  assumes "node_inv L s" "handleSessionUpdate J clk channel payload s = Done s'"
  shows "node_inv L s'"
  using assms
  by (auto simp: handleSessionUpdate_def Let_def split: if_splits option.splits
      intro: broadcastState_inv[where s = "log_line l s" for l])

lemma handleClientMessage_inv:
  assumes inv: "node_inv L s" and run: "handleClientMessage J p message s = Done s'"
  shows "node_inv L s'"
proof (cases "unmarshalEnvelope J message")
  case None
  with run inv show ?thesis by (auto simp: handleClientMessage_def)
next
  case (Some env)
  obtain ty st where env: "env = (ty, st)" by (cases env)
  have host: "node_inv L (hostStateUpdate J c st s)" for c
    using inv hostStateUpdate_frame[of J c st s]
    by (simp add: node_inv_def liveConnections_def)
  consider "ty = ''stateUpdate''" | "ty \<noteq> ''stateUpdate''" "ty = ''videoMetadata''"
    | "ty \<noteq> ''stateUpdate''" "ty \<noteq> ''videoMetadata''" "ty = ''heartbeat''"
    | "ty \<noteq> ''stateUpdate''" "ty \<noteq> ''videoMetadata''" "ty \<noteq> ''heartbeat''" by blast
  then show ?thesis
  proof cases
    case 1
    with run Some env inv host show ?thesis
      by (auto simp: handleClientMessage_def Let_def split: if_splits)
  next
    case 2
    with run Some env obtain c where
      c: "send (heap s ! p) = Some c" "\<not> closed c" "length (buf c) < cap c"
      and s': "s' = s\<lparr>heap := (heap s)[p := (heap s ! p)\<lparr>send := Some (c\<lparr>buf := buf c @ [VideoMetadata videoMetadata]\<rparr>)\<rparr>]\<rparr>"
      by (auto simp: handleClientMessage_def Let_def chan_send_def
          split: option.splits if_splits)
    from node_inv_same_shape[OF inv same_shape_send[OF c(1,2)]] show ?thesis
      unfolding s' .
  next
    case 3
    with run Some env inv show ?thesis
      by (auto simp: handleClientMessage_def Let_def node_inv_def liveConnections_def
          split: option.splits)
  next
    case 4
    with run Some env inv show ?thesis
      by (auto simp: handleClientMessage_def Let_def)
  qed
qed

end
